theory Spec2Isabelle
  imports Complex_Main "HOL-Library.Word" "HOL-Library.Multiset" "HOL-Library.Extended_Nat"
    "HOL-Library.Log_Nat"
begin

section \<open>The time-parameterised state validity check\<close>

subsection \<open>The product of two doubles\<close>

text \<open>
  The key of a time is computed in \<^verbatim>\<open>double\<close> arithmetic: \<^verbatim>\<open>time * scalingFactor_\<close> is the
  IEEE 754 binary64 product, rounded to nearest, ties to even. \<open>Finite m e\<close> is the number
  \<open>m * 2 ^ e\<close>; a binary64 number is zero or has such a form with \<open>\<bar>m\<bar> < 2 ^ 53\<close> and
  \<open>- 1074 \<le> e\<close>, and is at most \<open>(2 ^ 53 - 1) * 2 ^ 971\<close> in magnitude. The sign of a zero
  is not kept: nothing here reads it.
\<close>

datatype double = Finite int int | Infinity bool | NaN

definition dyadic :: "int \<Rightarrow> int \<Rightarrow> real" where
  "dyadic m e = (if 0 \<le> e then of_int m * 2 ^ nat e else of_int m / 2 ^ nat (- e))"

text \<open>\<open>m / 2 ^ s\<close> rounded to the nearest integer, a tie to the even one.\<close>

definition roundShift :: "int \<Rightarrow> nat \<Rightarrow> int" where
  "roundShift m s =
     (let q = m div 2 ^ s; r = m mod 2 ^ s; h = 2 ^ (s - 1)
      in if r < h then q else if h < r then q + 1 else if even q then q else q + 1)"

text \<open>
  The binary64 number nearest to \<open>m * 2 ^ e\<close>: the significand keeps 53 bits, fewer below
  the least normal exponent (gradual underflow), and a result beyond the largest finite
  number is an infinity.
\<close>

definition roundDouble :: "int \<Rightarrow> int \<Rightarrow> double" where
  "roundDouble m e =
     (if m = 0 then Finite 0 0
      else (let E = max (e + bitlen \<bar>m\<bar> - 53) (- 1074);
                mr = (if E \<le> e then m else roundShift m (nat (E - e)));
                er = (if E \<le> e then e else E)
            in if 1024 < bitlen \<bar>mr\<bar> + er then Infinity (m < 0) else Finite mr er))"

fun fmul :: "double \<Rightarrow> double \<Rightarrow> double" where
  "fmul NaN y = NaN"
| "fmul x NaN = NaN"
| "fmul (Infinity a) (Infinity b) = Infinity (a \<noteq> b)"
| "fmul (Infinity a) (Finite m e) = (if m = 0 then NaN else Infinity (a \<noteq> (m < 0)))"
| "fmul (Finite m e) (Infinity b) = (if m = 0 then NaN else Infinity ((m < 0) \<noteq> b))"
| "fmul (Finite m1 e1) (Finite m2 e2) = roundDouble (m1 * m2) (e1 + e2)"

subsection \<open>The check\<close>

text \<open>
  \<^verbatim>\<open>StateValidityChecker::isValid(const State *state, const double time)\<close>.
  The static check \<^verbatim>\<open>isValid(state)\<close> and the pairwise check \<^verbatim>\<open>areStatesValid\<close> are
  virtual and supplied by the user, so they are fields of the checker.
\<close>

text \<open>
  Modelled from the spec: the members \<^verbatim>\<open>dynObstacles_\<close> and \<^verbatim>\<open>scalingFactor_\<close>, declared in
  the header of the class, which is missing. The specification has a time-to-obstacle-set
  map keyed by \<open>round (t * scalingFactor)\<close> whose entries are pairs of a space information
  and a state: a map from an \<^verbatim>\<open>int\<close> key to a sequence of such pairs, and a \<^verbatim>\<open>double\<close>,
  as the time it multiplies.
\<close>

record ('s, 'si) StateValidityChecker =
  isValid :: "'s \<Rightarrow> bool"
  areStatesValid :: "'s \<Rightarrow> 'si \<times> 's \<Rightarrow> bool"
  dynObstacles_m :: "int \<rightharpoonup> ('si \<times> 's) list"
  scalingFactor_m :: double

text \<open>\<^verbatim>\<open>std::round\<close>: to the nearest integer, halfway cases away from zero.\<close>

definition std_round :: "real \<Rightarrow> int" where
  "std_round x = (if 0 \<le> x then \<lfloor>x + 1 / 2\<rfloor> else - \<lfloor>- x + 1 / 2\<rfloor>)"

text \<open>
  \<^verbatim>\<open>int t_key = std::round(time * scalingFactor_)\<close>: the product of the two doubles, rounded
  to a double, then \<^verbatim>\<open>std::round\<close> of that double. The conversion of a \<^verbatim>\<open>double\<close> to a 32-bit
  \<^verbatim>\<open>int\<close> is undefined when the value does not fit, or is an infinity or not a number:
  that is \<open>None\<close>.
\<close>

definition t_key :: "double \<Rightarrow> double \<Rightarrow> int option" where
  "t_key time sf =
     (case fmul time sf of
        Finite m e \<Rightarrow>
          (let r = std_round (dyadic m e)
           in if - (2 ^ 31) \<le> r \<and> r < 2 ^ 31 then Some r else None)
      | Infinity _ \<Rightarrow> None
      | NaN \<Rightarrow> None)"

text \<open>The loop over the obstacles stored under one key: it leaves at the first failure.\<close>

fun obstaclesValid :: "('s \<Rightarrow> 'si \<times> 's \<Rightarrow> bool) \<Rightarrow> 's \<Rightarrow> ('si \<times> 's) list \<Rightarrow> bool" where
  "obstaclesValid f s [] = True"
| "obstaclesValid f s (st # sts) = (if \<not> f s st then False else obstaclesValid f s sts)"

definition isValid_time :: "('s, 'si) StateValidityChecker \<Rightarrow> 's \<Rightarrow> double \<Rightarrow> bool option" where
  "isValid_time chk state time =
     (if dynObstacles_m chk = Map.empty then Some (isValid chk state)
      else if isValid chk state then
        (case t_key time (scalingFactor_m chk) of
           None \<Rightarrow> None
         | Some k \<Rightarrow>
             (case dynObstacles_m chk k of
                Some obs \<Rightarrow> Some (obstaclesValid (areStatesValid chk) state obs)
              | None \<Rightarrow> Some True))
      else Some False)"

section \<open>BIT* vertices\<close>

text \<open>
  A vertex refers to its parent by a shared pointer and to its children by weak pointers,
  so vertices live in a store: a map from addresses to vertex objects. A weak pointer
  has expired when the store holds nothing at its address. The member \<^verbatim>\<open>x_\<close> of the class
  is the field \<open>x_m\<close>; \<^verbatim>\<open>depth_\<close> is an \<^verbatim>\<open>unsigned int\<close>, the id a number, the state an
  address.
\<close>

text \<open>
  Modelled from the spec: the class \<^verbatim>\<open>CostHelper\<close>, which is missing. The specification
  has a value type with an identity cost, an infinite cost and a combination of costs;
  the cost type is a type parameter and the helper a record of these.
\<close>

type_synonym addr = nat

record 'c CostHelper =
  identityCost :: 'c
  infiniteCost :: 'c
  combineCosts :: "'c \<Rightarrow> 'c \<Rightarrow> 'c"

record 'c Vertex =
  vId_m :: nat
  costHelpPtr_m :: "'c CostHelper"
  state_m :: addr
  isRoot_m :: bool
  isNew_m :: bool
  hasBeenExpandedToSamples_m :: bool
  hasBeenExpandedToVertices_m :: bool
  isPruned_m :: bool
  depth_m :: "32 word"
  parentSPtr_m :: "addr option"
  edgeCost_m :: 'c
  cost_m :: 'c
  childWPtrs_m :: "addr list"

type_synonym 'c heap = "addr \<rightharpoonup> 'c Vertex"

text \<open>
  Every exception the class throws, and \<open>UndefinedBehaviour\<close> for the dereference of a
  null or expired pointer.
\<close>

datatype error =
    PrunedVertex
  | DepthWithoutParent
  | ParentOfRoot
  | ParentMissing
  | AlreadyHasParent
  | AddParentToRoot
  | RemoveMissingParent
  | RemoveParentOfRoot
  | ExpiredChild
  | ChildNotFound
  | EdgeCostWithoutParent
  | CascadeFromDisconnected
  | UndefinedBehaviour

text \<open>
  The macro \<^verbatim>\<open>ASSERT_NOT_PRUNED\<close> and every \<^verbatim>\<open>#ifdef BITSTAR_DEBUG\<close> block are compiled
  in only when \<^verbatim>\<open>BITSTAR_DEBUG\<close> is defined, which a missing header decides. The flag \<open>dbg\<close>
  of every operation says whether it is.
\<close>

definition assertNotPruned :: "'c Vertex \<Rightarrow> error + unit" where
  "assertNotPruned v = (if isPruned_m v then Inl PrunedVertex else Inr ())"

definition ASSERT_NOT_PRUNED :: "bool \<Rightarrow> 'c Vertex \<Rightarrow> error + unit" where
  "ASSERT_NOT_PRUNED dbg v = (if dbg then assertNotPruned v else Inr ())"

subsection \<open>Operations that read or write one vertex\<close>

definition getId :: "bool \<Rightarrow> 'c Vertex \<Rightarrow> error + nat" where
  "getId dbg v = (case ASSERT_NOT_PRUNED dbg v of Inl e \<Rightarrow> Inl e | Inr _ \<Rightarrow> Inr (vId_m v))"

definition stateConst :: "bool \<Rightarrow> 'c Vertex \<Rightarrow> error + addr" where
  "stateConst dbg v = (case ASSERT_NOT_PRUNED dbg v of Inl e \<Rightarrow> Inl e | Inr _ \<Rightarrow> Inr (state_m v))"

definition state :: "bool \<Rightarrow> 'c Vertex \<Rightarrow> error + addr" where
  "state dbg v = (case ASSERT_NOT_PRUNED dbg v of Inl e \<Rightarrow> Inl e | Inr _ \<Rightarrow> Inr (state_m v))"

definition isRoot :: "bool \<Rightarrow> 'c Vertex \<Rightarrow> error + bool" where
  "isRoot dbg v = (case ASSERT_NOT_PRUNED dbg v of Inl e \<Rightarrow> Inl e | Inr _ \<Rightarrow> Inr (isRoot_m v))"

definition hasParent :: "bool \<Rightarrow> 'c Vertex \<Rightarrow> error + bool" where
  "hasParent dbg v =
     (case ASSERT_NOT_PRUNED dbg v of Inl e \<Rightarrow> Inl e | Inr _ \<Rightarrow> Inr (parentSPtr_m v \<noteq> None))"

definition isInTree :: "bool \<Rightarrow> 'c Vertex \<Rightarrow> error + bool" where
  "isInTree dbg v =
     (case ASSERT_NOT_PRUNED dbg v of
        Inl e \<Rightarrow> Inl e
      | Inr _ \<Rightarrow>
          (case isRoot dbg v of
             Inl e \<Rightarrow> Inl e
           | Inr r \<Rightarrow> if r then Inr True else hasParent dbg v))"

definition getDepth :: "bool \<Rightarrow> 'c Vertex \<Rightarrow> error + 32 word" where
  "getDepth dbg v =
     (case ASSERT_NOT_PRUNED dbg v of
        Inl e \<Rightarrow> Inl e
      | Inr _ \<Rightarrow>
          if dbg \<and> isRoot dbg v = Inr False \<and> hasParent dbg v = Inr False
          then Inl DepthWithoutParent
          else Inr (depth_m v))"

definition getParentConst :: "bool \<Rightarrow> 'c Vertex \<Rightarrow> error + addr option" where
  "getParentConst dbg v =
     (case ASSERT_NOT_PRUNED dbg v of
        Inl e \<Rightarrow> Inl e
      | Inr _ \<Rightarrow>
          if dbg \<and> hasParent dbg v = Inr False
          then (if isRoot dbg v = Inr True then Inl ParentOfRoot else Inl ParentMissing)
          else Inr (parentSPtr_m v))"

definition getParent :: "bool \<Rightarrow> 'c Vertex \<Rightarrow> error + addr option" where
  "getParent dbg v =
     (case ASSERT_NOT_PRUNED dbg v of
        Inl e \<Rightarrow> Inl e
      | Inr _ \<Rightarrow>
          if dbg \<and> hasParent dbg v = Inr False
          then (if isRoot dbg v = Inr True then Inl ParentOfRoot else Inl ParentMissing)
          else Inr (parentSPtr_m v))"

definition hasChildren :: "bool \<Rightarrow> 'c Vertex \<Rightarrow> error + bool" where
  "hasChildren dbg v =
     (case ASSERT_NOT_PRUNED dbg v of Inl e \<Rightarrow> Inl e | Inr _ \<Rightarrow> Inr (childWPtrs_m v \<noteq> []))"

definition getCost :: "bool \<Rightarrow> 'c Vertex \<Rightarrow> error + 'c" where
  "getCost dbg v = (case ASSERT_NOT_PRUNED dbg v of Inl e \<Rightarrow> Inl e | Inr _ \<Rightarrow> Inr (cost_m v))"

definition getEdgeInCost :: "bool \<Rightarrow> 'c Vertex \<Rightarrow> error + 'c" where
  "getEdgeInCost dbg v =
     (case ASSERT_NOT_PRUNED dbg v of
        Inl e \<Rightarrow> Inl e
      | Inr _ \<Rightarrow>
          if dbg \<and> hasParent dbg v = Inr False then Inl EdgeCostWithoutParent
          else Inr (edgeCost_m v))"

definition isNew :: "bool \<Rightarrow> 'c Vertex \<Rightarrow> error + bool" where
  "isNew dbg v = (case ASSERT_NOT_PRUNED dbg v of Inl e \<Rightarrow> Inl e | Inr _ \<Rightarrow> Inr (isNew_m v))"

definition markNew :: "bool \<Rightarrow> 'c Vertex \<Rightarrow> error + 'c Vertex" where
  "markNew dbg v =
     (case ASSERT_NOT_PRUNED dbg v of Inl e \<Rightarrow> Inl e | Inr _ \<Rightarrow> Inr (v\<lparr>isNew_m := True\<rparr>))"

definition markOld :: "bool \<Rightarrow> 'c Vertex \<Rightarrow> error + 'c Vertex" where
  "markOld dbg v =
     (case ASSERT_NOT_PRUNED dbg v of Inl e \<Rightarrow> Inl e | Inr _ \<Rightarrow> Inr (v\<lparr>isNew_m := False\<rparr>))"

definition hasBeenExpandedToSamples :: "bool \<Rightarrow> 'c Vertex \<Rightarrow> error + bool" where
  "hasBeenExpandedToSamples dbg v =
     (case ASSERT_NOT_PRUNED dbg v of
        Inl e \<Rightarrow> Inl e
      | Inr _ \<Rightarrow> Inr (hasBeenExpandedToSamples_m v))"

definition markExpandedToSamples :: "bool \<Rightarrow> 'c Vertex \<Rightarrow> error + 'c Vertex" where
  "markExpandedToSamples dbg v =
     (case ASSERT_NOT_PRUNED dbg v of
        Inl e \<Rightarrow> Inl e
      | Inr _ \<Rightarrow> Inr (v\<lparr>hasBeenExpandedToSamples_m := True\<rparr>))"

definition markUnexpandedToSamples :: "bool \<Rightarrow> 'c Vertex \<Rightarrow> error + 'c Vertex" where
  "markUnexpandedToSamples dbg v =
     (case ASSERT_NOT_PRUNED dbg v of
        Inl e \<Rightarrow> Inl e
      | Inr _ \<Rightarrow> Inr (v\<lparr>hasBeenExpandedToSamples_m := False\<rparr>))"

definition hasBeenExpandedToVertices :: "bool \<Rightarrow> 'c Vertex \<Rightarrow> error + bool" where
  "hasBeenExpandedToVertices dbg v =
     (case ASSERT_NOT_PRUNED dbg v of
        Inl e \<Rightarrow> Inl e
      | Inr _ \<Rightarrow> Inr (hasBeenExpandedToVertices_m v))"

definition markExpandedToVertices :: "bool \<Rightarrow> 'c Vertex \<Rightarrow> error + 'c Vertex" where
  "markExpandedToVertices dbg v =
     (case ASSERT_NOT_PRUNED dbg v of
        Inl e \<Rightarrow> Inl e
      | Inr _ \<Rightarrow> Inr (v\<lparr>hasBeenExpandedToVertices_m := True\<rparr>))"

definition markUnexpandedToVertices :: "bool \<Rightarrow> 'c Vertex \<Rightarrow> error + 'c Vertex" where
  "markUnexpandedToVertices dbg v =
     (case ASSERT_NOT_PRUNED dbg v of
        Inl e \<Rightarrow> Inl e
      | Inr _ \<Rightarrow> Inr (v\<lparr>hasBeenExpandedToVertices_m := False\<rparr>))"

definition isPruned :: "bool \<Rightarrow> 'c Vertex \<Rightarrow> error + bool" where
  "isPruned dbg v = Inr (isPruned_m v)"

definition markPruned :: "bool \<Rightarrow> 'c Vertex \<Rightarrow> error + 'c Vertex" where
  "markPruned dbg v =
     (case ASSERT_NOT_PRUNED dbg v of Inl e \<Rightarrow> Inl e | Inr _ \<Rightarrow> Inr (v\<lparr>isPruned_m := True\<rparr>))"

definition markUnpruned :: "bool \<Rightarrow> 'c Vertex \<Rightarrow> error + 'c Vertex" where
  "markUnpruned dbg v = Inr (v\<lparr>isPruned_m := False\<rparr>)"

text \<open>
  \<^verbatim>\<open>getChildren\<close> and \<^verbatim>\<open>getChildrenConst\<close> lock every weak pointer; with the debug checks
  an expired one throws, without them its lock is the null pointer, which is stored.
\<close>

fun lockChildren :: "bool \<Rightarrow> 'c heap \<Rightarrow> addr list \<Rightarrow> error + addr option list" where
  "lockChildren dbg h [] = Inr []"
| "lockChildren dbg h (c # cs) =
     (if dbg \<and> h c = None then Inl ExpiredChild
      else (case lockChildren dbg h cs of
              Inl e \<Rightarrow> Inl e
            | Inr ps \<Rightarrow> Inr ((if h c = None then None else Some c) # ps)))"

definition getChildrenConst :: "bool \<Rightarrow> 'c heap \<Rightarrow> 'c Vertex \<Rightarrow> error + addr option list" where
  "getChildrenConst dbg h v =
     (case ASSERT_NOT_PRUNED dbg v of
        Inl e \<Rightarrow> Inl e
      | Inr _ \<Rightarrow> lockChildren dbg h (childWPtrs_m v))"

definition getChildren :: "bool \<Rightarrow> 'c heap \<Rightarrow> 'c Vertex \<Rightarrow> error + addr option list" where
  "getChildren dbg h v =
     (case ASSERT_NOT_PRUNED dbg v of
        Inl e \<Rightarrow> Inl e
      | Inr _ \<Rightarrow> lockChildren dbg h (childWPtrs_m v))"

subsection \<open>The cost propagator and the operations on the tree\<close>

text \<open>
  \<^verbatim>\<open>updateCostAndDepth\<close> calls itself on every child; the first argument bounds the depth
  of that recursion, and \<open>None\<close> is the call that exceeds it. A result is the outcome
  (an exception or a normal return) with the store as the call left it.
\<close>

type_synonym 'c outcome = "((error + unit) \<times> 'c heap) option"

fun updateCostAndDepth :: "bool \<Rightarrow> nat \<Rightarrow> addr \<Rightarrow> bool \<Rightarrow> 'c heap \<Rightarrow> 'c outcome"
and updateChildren :: "bool \<Rightarrow> nat \<Rightarrow> addr list \<Rightarrow> 'c heap \<Rightarrow> 'c outcome" where
  "updateCostAndDepth dbg 0 this cascadeUpdates h = None"
| "updateCostAndDepth dbg (Suc n) this cascadeUpdates h =
     (case h this of
        None \<Rightarrow> Some (Inl UndefinedBehaviour, h)
      | Some v \<Rightarrow>
          (case ASSERT_NOT_PRUNED dbg v of
             Inl e \<Rightarrow> Some (Inl e, h)
           | Inr _ \<Rightarrow>
               if isRoot_m v then
                 (let h1 = h(this \<mapsto> v\<lparr>cost_m := identityCost (costHelpPtr_m v), depth_m := 0\<rparr>)
                  in if cascadeUpdates then updateChildren dbg n (childWPtrs_m v) h1
                     else Some (Inr (), h1))
               else
                 (case parentSPtr_m v of
                    None \<Rightarrow>
                      (let h1 = h(this \<mapsto> v\<lparr>cost_m := infiniteCost (costHelpPtr_m v), depth_m := 0\<rparr>)
                       in if dbg \<and> childWPtrs_m v \<noteq> [] \<and> cascadeUpdates
                          then Some (Inl CascadeFromDisconnected, h1)
                          else if cascadeUpdates then updateChildren dbg n (childWPtrs_m v) h1
                          else Some (Inr (), h1))
                  | Some p \<Rightarrow>
                      (case h p of
                         None \<Rightarrow> Some (Inl UndefinedBehaviour, h)
                       | Some pv \<Rightarrow>
                           (case getCost dbg pv of
                              Inl e \<Rightarrow> Some (Inl e, h)
                            | Inr pc \<Rightarrow>
                                (let v1 = v\<lparr>cost_m := combineCosts (costHelpPtr_m v) pc (edgeCost_m v)\<rparr>
                                 in (case getDepth dbg pv of
                                       Inl e \<Rightarrow> Some (Inl e, h(this \<mapsto> v1))
                                     | Inr d \<Rightarrow>
                                         (let h1 = h(this \<mapsto> v1\<lparr>depth_m := d + 1\<rparr>)
                                          in if cascadeUpdates
                                             then updateChildren dbg n (childWPtrs_m v) h1
                                             else Some (Inr (), h1)))))))))"
| "updateChildren dbg n [] h = Some (Inr (), h)"
| "updateChildren dbg n (c # cs) h =
     (if dbg \<and> h c = None then Some (Inl ExpiredChild, h)
      else (case updateCostAndDepth dbg n c True h of
              None \<Rightarrow> None
            | Some (Inl e, h') \<Rightarrow> Some (Inl e, h')
            | Some (Inr _, h') \<Rightarrow> updateChildren dbg n cs h'))"

definition addParent ::
  "bool \<Rightarrow> nat \<Rightarrow> addr \<Rightarrow> addr option \<Rightarrow> 'c \<Rightarrow> bool \<Rightarrow> 'c heap \<Rightarrow> 'c outcome" where
  "addParent dbg n this newParent edgeInCost updateChildCosts h =
     (case h this of
        None \<Rightarrow> Some (Inl UndefinedBehaviour, h)
      | Some v \<Rightarrow>
          (case ASSERT_NOT_PRUNED dbg v of
             Inl e \<Rightarrow> Some (Inl e, h)
           | Inr _ \<Rightarrow>
               if dbg \<and> hasParent dbg v = Inr True then Some (Inl AlreadyHasParent, h)
               else if dbg \<and> isRoot dbg v = Inr True then Some (Inl AddParentToRoot, h)
               else updateCostAndDepth dbg n this updateChildCosts
                      (h(this \<mapsto> v\<lparr>parentSPtr_m := newParent, edgeCost_m := edgeInCost\<rparr>))))"

definition removeParent :: "bool \<Rightarrow> nat \<Rightarrow> addr \<Rightarrow> bool \<Rightarrow> 'c heap \<Rightarrow> 'c outcome" where
  "removeParent dbg n this updateChildCosts h =
     (case h this of
        None \<Rightarrow> Some (Inl UndefinedBehaviour, h)
      | Some v \<Rightarrow>
          (case ASSERT_NOT_PRUNED dbg v of
             Inl e \<Rightarrow> Some (Inl e, h)
           | Inr _ \<Rightarrow>
               if dbg \<and> hasParent dbg v = Inr False then Some (Inl RemoveMissingParent, h)
               else if dbg \<and> isRoot dbg v = Inr True then Some (Inl RemoveParentOfRoot, h)
               else updateCostAndDepth dbg n this updateChildCosts
                      (h(this \<mapsto> v\<lparr>parentSPtr_m := None\<rparr>))))"

definition addChild :: "bool \<Rightarrow> nat \<Rightarrow> addr \<Rightarrow> addr \<Rightarrow> bool \<Rightarrow> 'c heap \<Rightarrow> 'c outcome" where
  "addChild dbg n this newChild updateChildCosts h =
     (case h this of
        None \<Rightarrow> Some (Inl UndefinedBehaviour, h)
      | Some v \<Rightarrow>
          (case ASSERT_NOT_PRUNED dbg v of
             Inl e \<Rightarrow> Some (Inl e, h)
           | Inr _ \<Rightarrow>
               (let h1 = h(this \<mapsto> v\<lparr>childWPtrs_m := childWPtrs_m v @ [newChild]\<rparr>)
                in if updateChildCosts then updateCostAndDepth dbg n newChild True h1
                   else Some (Inr (), h1))))"

text \<open>
  The scan of \<^verbatim>\<open>removeChild\<close>: the index of the first child whose id is that of
  \<^verbatim>\<open>oldChild\<close>, or the exception thrown on the way.
\<close>

fun findChild :: "bool \<Rightarrow> 'c heap \<Rightarrow> addr \<Rightarrow> addr list \<Rightarrow> error + nat option" where
  "findChild dbg h oldChild [] = Inr None"
| "findChild dbg h oldChild (c # cs) =
     (if dbg \<and> h c = None then Inl ExpiredChild
      else (case (h c, h oldChild) of
              (Some cv, Some ov) \<Rightarrow>
                (case (getId dbg cv, getId dbg ov) of
                   (Inr i, Inr j) \<Rightarrow>
                     if i = j then Inr (Some 0)
                     else (case findChild dbg h oldChild cs of
                             Inl e \<Rightarrow> Inl e
                           | Inr None \<Rightarrow> Inr None
                           | Inr (Some k) \<Rightarrow> Inr (Some (Suc k)))
                 | (Inl e, _) \<Rightarrow> Inl e
                 | (_, Inl e) \<Rightarrow> Inl e)
            | _ \<Rightarrow> Inl UndefinedBehaviour))"

text \<open>Swap the element found with the last one, unless it is the last, and pop the last.\<close>

definition swapAndPop :: "'a list \<Rightarrow> nat \<Rightarrow> 'a list" where
  "swapAndPop xs i =
     butlast (if i \<noteq> length xs - 1 then xs[i := last xs, length xs - 1 := xs ! i] else xs)"

definition removeChild :: "bool \<Rightarrow> nat \<Rightarrow> addr \<Rightarrow> addr \<Rightarrow> bool \<Rightarrow> 'c heap \<Rightarrow> 'c outcome" where
  "removeChild dbg n this oldChild updateChildCosts h =
     (case h this of
        None \<Rightarrow> Some (Inl UndefinedBehaviour, h)
      | Some v \<Rightarrow>
          (case ASSERT_NOT_PRUNED dbg v of
             Inl e \<Rightarrow> Some (Inl e, h)
           | Inr _ \<Rightarrow>
               (case findChild dbg h oldChild (childWPtrs_m v) of
                  Inl e \<Rightarrow> Some (Inl e, h)
                | Inr foundChild \<Rightarrow>
                    (let h1 = (case foundChild of
                                 None \<Rightarrow> h
                               | Some i \<Rightarrow> h(this \<mapsto> v\<lparr>childWPtrs_m := swapAndPop (childWPtrs_m v) i\<rparr>))
                     in (case (if updateChildCosts then updateCostAndDepth dbg n oldChild True h1
                               else Some (Inr (), h1)) of
                           None \<Rightarrow> None
                         | Some (Inl e, h2) \<Rightarrow> Some (Inl e, h2)
                         | Some (Inr _, h2) \<Rightarrow>
                             if dbg \<and> foundChild = None then Some (Inl ChildNotFound, h2)
                             else Some (Inr (), h2))))))"

section \<open>Example stores\<close>

text \<open>
  Costs as extended natural numbers: the identity is \<open>0\<close>, the infinite cost \<open>\<infinity>\<close>,
  costs combine by addition.
\<close>

definition natCosts :: "enat CostHelper" where
  "natCosts = \<lparr>identityCost = 0, infiniteCost = \<infinity>, combineCosts = (+)\<rparr>"

text \<open>
  \<open>exVertex i isroot pruned parent edge cost depth children\<close> is a vertex object with the
  given id, flags, parent, incoming edge cost, cost, depth and children.
\<close>

definition exVertex ::
  "nat \<Rightarrow> bool \<Rightarrow> bool \<Rightarrow> addr option \<Rightarrow> enat \<Rightarrow> enat \<Rightarrow> 32 word \<Rightarrow> addr list \<Rightarrow> enat Vertex" where
  "exVertex i isroot pruned parent edge c d children =
     \<lparr>vId_m = i, costHelpPtr_m = natCosts, state_m = i, isRoot_m = isroot, isNew_m = True,
      hasBeenExpandedToSamples_m = False, hasBeenExpandedToVertices_m = False,
      isPruned_m = pruned, depth_m = d, parentSPtr_m = parent, edgeCost_m = edge,
      cost_m = c, childWPtrs_m = children\<rparr>"

section \<open>Notions for the proofs\<close>

text \<open>
  Two vertex objects have the same fields when they differ in cost and depth at most; two
  stores have the same shape when they hold such objects at the same addresses.
\<close>

definition sameFields :: "'c Vertex \<Rightarrow> 'c Vertex \<Rightarrow> bool" where
  "sameFields v v' \<longleftrightarrow> v' = v\<lparr>cost_m := cost_m v', depth_m := depth_m v'\<rparr>"

definition sameShape :: "'c heap \<Rightarrow> 'c heap \<Rightarrow> bool" where
  "sameShape h h' \<longleftrightarrow> (\<forall>a. rel_option sameFields (h a) (h' a))"

text \<open>
  The part of \<^verbatim>\<open>updateCostAndDepth\<close> before its loop: the exception it throws or the
  children it is about to visit, and the store it leaves.
\<close>

definition updateOwn :: "bool \<Rightarrow> bool \<Rightarrow> addr \<Rightarrow> 'c heap \<Rightarrow> (error + addr list) \<times> 'c heap" where
  "updateOwn dbg cascadeUpdates this h =
     (case h this of
        None \<Rightarrow> (Inl UndefinedBehaviour, h)
      | Some v \<Rightarrow>
          if dbg \<and> isPruned_m v then (Inl PrunedVertex, h)
          else if isRoot_m v then
            (Inr (childWPtrs_m v),
             h(this \<mapsto> v\<lparr>cost_m := identityCost (costHelpPtr_m v), depth_m := 0\<rparr>))
          else
            (case parentSPtr_m v of
               None \<Rightarrow>
                 (if dbg \<and> childWPtrs_m v \<noteq> [] \<and> cascadeUpdates
                  then Inl CascadeFromDisconnected else Inr (childWPtrs_m v),
                  h(this \<mapsto> v\<lparr>cost_m := infiniteCost (costHelpPtr_m v), depth_m := 0\<rparr>))
             | Some p \<Rightarrow>
                 (case h p of
                    None \<Rightarrow> (Inl UndefinedBehaviour, h)
                  | Some pv \<Rightarrow>
                      if dbg \<and> isPruned_m pv then (Inl PrunedVertex, h)
                      else if dbg \<and> \<not> isRoot_m pv \<and> parentSPtr_m pv = None
                      then (Inl DepthWithoutParent,
                            h(this \<mapsto> v\<lparr>cost_m := combineCosts (costHelpPtr_m v) (cost_m pv) (edgeCost_m v)\<rparr>))
                      else (Inr (childWPtrs_m v),
                            h(this \<mapsto> v\<lparr>cost_m := combineCosts (costHelpPtr_m v) (cost_m pv) (edgeCost_m v),
                                         depth_m := depth_m pv + 1\<rparr>)))))"

text \<open>
  The vertices a cascade visits from a vertex, as a tree of addresses: the vertex, and for
  each entry of its child list, in order, the tree below that child.
\<close>

datatype vtree = VNode (vroot: addr) (vsubs: "vtree list")

fun vaddrs :: "vtree \<Rightarrow> addr list" where
  "vaddrs (VNode a ts) = a # concat (map vaddrs ts)"

fun vheight :: "vtree \<Rightarrow> nat" where
  "vheight (VNode a ts) = Suc (foldr max (map vheight ts) 0)"

text \<open>
  \<open>subtreeAt h t\<close>: the store holds the tree \<open>t\<close>. Every vertex of \<open>t\<close> is in the store and
  not pruned, its child list is the list of the roots of its subtrees, and each child is
  not a root vertex and has the vertex as its parent.
\<close>

fun subtreeAt :: "'c heap \<Rightarrow> vtree \<Rightarrow> bool" where
  "subtreeAt h (VNode a ts) =
     (case h a of
        None \<Rightarrow> False
      | Some v \<Rightarrow>
          \<not> isPruned_m v \<and> childWPtrs_m v = map vroot ts \<and>
          (\<forall>t \<in> set ts.
             (case h (vroot t) of
                None \<Rightarrow> False
              | Some c \<Rightarrow> parentSPtr_m c = Some a \<and> \<not> isRoot_m c) \<and>
             subtreeAt h t))"

text \<open>
  \<open>ownOk dbg h v\<close>: a cascading \<^verbatim>\<open>updateCostAndDepth\<close> of the unpruned vertex \<open>v\<close> gets to its
  loop. The parent, if there is one, is in the store; with the debug checks it is not
  pruned and is itself root or connected, and a vertex that is neither root nor connected
  has no children.
\<close>

definition ownOk :: "bool \<Rightarrow> 'c heap \<Rightarrow> 'c Vertex \<Rightarrow> bool" where
  "ownOk dbg h v \<longleftrightarrow>
     isRoot_m v \<or>
     (case parentSPtr_m v of
        None \<Rightarrow> \<not> (dbg \<and> childWPtrs_m v \<noteq> [])
      | Some p \<Rightarrow>
          (case h p of
             None \<Rightarrow> False
           | Some pv \<Rightarrow>
               \<not> (dbg \<and> isPruned_m pv) \<and> \<not> (dbg \<and> \<not> isRoot_m pv \<and> parentSPtr_m pv = None)))"

text \<open>The cost and depth that \<^verbatim>\<open>updateCostAndDepth\<close> assigns to a vertex.\<close>

definition ownCostAndDepth :: "'c heap \<Rightarrow> 'c Vertex \<Rightarrow> 'c Vertex" where
  "ownCostAndDepth h v =
     (if isRoot_m v then v\<lparr>cost_m := identityCost (costHelpPtr_m v), depth_m := 0\<rparr>
      else (case parentSPtr_m v of
              None \<Rightarrow> v\<lparr>cost_m := infiniteCost (costHelpPtr_m v), depth_m := 0\<rparr>
            | Some p \<Rightarrow>
                (case h p of
                   None \<Rightarrow> v
                 | Some pv \<Rightarrow>
                     v\<lparr>cost_m := combineCosts (costHelpPtr_m v) (cost_m pv) (edgeCost_m v),
                       depth_m := depth_m pv + 1\<rparr>)))"

text \<open>The store after a cascade over a tree: the root first, then its subtrees in order.\<close>

fun refresh :: "'c heap \<Rightarrow> vtree \<Rightarrow> 'c heap" where
  "refresh h (VNode a ts) =
     fold (\<lambda>t g. refresh g t) ts
       (case h a of None \<Rightarrow> h | Some v \<Rightarrow> h(a \<mapsto> ownCostAndDepth h v))"

text \<open>
  The cost-cascade invariant at one address: a vertex there that is not root and has a
  parent in the store has the parent's cost combined with its edge cost, and the parent's
  depth plus one.
\<close>

definition costInv :: "'c heap \<Rightarrow> addr \<Rightarrow> bool" where
  "costInv h w =
     (case h w of
        None \<Rightarrow> True
      | Some v \<Rightarrow>
          if isRoot_m v then True
          else (case parentSPtr_m v of
                  None \<Rightarrow> True
                | Some p \<Rightarrow>
                    (case h p of
                       None \<Rightarrow> True
                     | Some pv \<Rightarrow>
                         cost_m v = combineCosts (costHelpPtr_m v) (cost_m pv) (edgeCost_m v) \<and>
                         depth_m v = depth_m pv + 1)))"

section \<open>The validity check: properties\<close>

lemma obstaclesValid_iff: "obstaclesValid f s obs \<longleftrightarrow> (\<forall>st \<in> set obs. f s st)"
  by (induction obs) auto

subsection \<open>The key is the nearest integer to the product, up to the rounding of the product\<close>

lemma dyadic_powr: "dyadic m e = of_int m * 2 powr (of_int e)"
proof (cases "0 \<le> e")
  case True
  then have "of_int e = real (nat e)" by simp
  then have "(2::real) powr (of_int e) = 2 ^ nat e" by (simp only: powr_realpow zero_less_numeral)
  with True show ?thesis by (simp add: dyadic_def)
next
  case False
  then have "of_int e = - real (nat (- e))" by simp
  then have "(2::real) powr (of_int e) = 1 / 2 ^ nat (- e)"
    by (simp only: powr_minus_divide powr_realpow zero_less_numeral)
  with False show ?thesis by (simp add: dyadic_def)
qed

lemma dyadic_mult: "dyadic m1 e1 * dyadic m2 e2 = dyadic (m1 * m2) (e1 + e2)"
  by (simp add: dyadic_powr powr_add)

lemma std_round_err: "\<bar>of_int (std_round x) - x\<bar> \<le> 1 / 2"
proof (cases "0 \<le> x")
  case True
  then have e: "std_round x = \<lfloor>x + 1 / 2\<rfloor>" by (simp add: std_round_def)
  have "of_int \<lfloor>x + 1 / 2\<rfloor> \<le> x + 1 / 2" "x + 1 / 2 < of_int \<lfloor>x + 1 / 2\<rfloor> + 1"
    by linarith+
  then show ?thesis unfolding e by linarith
next
  case False
  then have e: "std_round x = - \<lfloor>- x + 1 / 2\<rfloor>" by (simp add: std_round_def)
  have "of_int \<lfloor>- x + 1 / 2\<rfloor> \<le> - x + 1 / 2" "- x + 1 / 2 < of_int \<lfloor>- x + 1 / 2\<rfloor> + 1"
    by linarith+
  then show ?thesis unfolding e of_int_minus by linarith
qed

lemma roundShift_err:
  assumes "0 < s"
  shows "\<bar>roundShift m s * 2 ^ s - m\<bar> \<le> 2 ^ (s - 1)"
proof -
  define q where "q = m div 2 ^ s"
  define r where "r = m mod 2 ^ s"
  define h :: int where "h = 2 ^ (s - 1)"
  from assms have p: "(2::int) ^ s = 2 * h"
    unfolding h_def by (cases s) simp_all
  have "m = q * 2 ^ s + r" unfolding q_def r_def by (rule div_mult_mod_eq[symmetric])
  then have m: "m = q * (2 * h) + r" unfolding p .
  have "0 \<le> r" "r < 2 ^ s" unfolding r_def by simp_all
  then have r: "0 \<le> r" "r < 2 * h" unfolding p .
  have rs: "roundShift m s = (if r < h then q else if h < r then q + 1
                              else if even q then q else q + 1)"
    by (simp add: roundShift_def q_def r_def h_def Let_def)
  have "\<bar>roundShift m s * (2 * h) - m\<bar> \<le> h"
    unfolding rs using m r by (auto simp: algebra_simps)
  then show ?thesis unfolding p h_def .
qed

lemma roundShift_big:
  assumes "0 < s" and "2 ^ (s + 52) \<le> \<bar>m\<bar>"
  shows "2 ^ 52 \<le> \<bar>roundShift m s\<bar>"
proof (rule ccontr)
  assume "\<not> 2 ^ 52 \<le> \<bar>roundShift m s\<bar>"
  then have a: "\<bar>roundShift m s\<bar> \<le> 2 ^ 52 - 1" by simp
  define h :: int where "h = 2 ^ (s - 1)"
  from assms(1) have p: "(2::int) ^ s = 2 * h" unfolding h_def by (cases s) simp_all
  have hp: "0 < h" unfolding h_def by simp
  define X where "X = roundShift m s * (2 * h)"
  have "\<bar>roundShift m s\<bar> * (2 * h) \<le> (2 ^ 52 - 1) * (2 * h)"
    using a hp by (intro mult_right_mono) simp_all
  moreover have "\<bar>X\<bar> = \<bar>roundShift m s\<bar> * (2 * h)"
    unfolding X_def using hp by (simp add: abs_mult)
  ultimately have b: "\<bar>X\<bar> \<le> 9007199254740990 * h" by simp
  from roundShift_err[OF assms(1), of m] have c: "\<bar>X - m\<bar> \<le> h"
    unfolding X_def p h_def .
  have "(2::int) ^ (s + 52) = 2 ^ 52 * 2 ^ s" by (simp add: power_add)
  with assms(2) have d: "9007199254740992 * h \<le> \<bar>m\<bar>"
    unfolding p by simp
  from b c d hp show False by linarith
qed

lemma t_key_near:
  assumes "t_key (Finite m1 e1) (Finite m2 e2) = Some k"
  shows "\<bar>of_int k - dyadic m1 e1 * dyadic m2 e2\<bar> \<le> 1 / 2 + 1 / 2 ^ 22"
proof -
  define m where "m = m1 * m2"
  define e where "e = e1 + e2"
  have ex: "dyadic m1 e1 * dyadic m2 e2 = dyadic m e" by (simp add: dyadic_mult m_def e_def)
  from assms obtain mr er where rd: "roundDouble m e = Finite mr er"
    and k: "k = std_round (dyadic mr er)" and kr: "- (2 ^ 31) \<le> k" "k < 2 ^ 31"
    by (auto simp: t_key_def m_def e_def Let_def split: double.splits if_splits)
  have ke: "\<bar>of_int k - dyadic mr er\<bar> \<le> 1 / 2" unfolding k by (rule std_round_err)
  have "\<bar>dyadic mr er - dyadic m e\<bar> \<le> 1 / 2 ^ 22"
  proof (cases "m = 0")
    case True
    with rd show ?thesis by (auto simp: roundDouble_def dyadic_def)
  next
    case False
    define n where "n = bitlen \<bar>m\<bar>"
    define E where "E = max (e + n - 53) (- 1074)"
    show ?thesis
    proof (cases "E \<le> e")
      case True
      with rd False have "mr = m" "er = e"
        by (auto simp: roundDouble_def Let_def E_def n_def split: if_splits)
      then show ?thesis by simp
    next
      case gt: False
      define s where "s = nat (E - e)"
      from gt have s: "0 < s" "int s = E - e" by (simp_all add: s_def)
      from rd False gt have mr: "mr = roundShift m s" and er: "er = E"
        by (auto simp: roundDouble_def Let_def E_def n_def s_def split: if_splits)
      have "\<bar>real_of_int (mr * 2 ^ s - m)\<bar> \<le> real_of_int (2 ^ (s - 1))"
        using roundShift_err[OF s(1), of m] unfolding mr by linarith
      then have i: "\<bar>of_int mr * 2 ^ s - of_int m\<bar> \<le> (2::real) ^ (s - 1)" by simp
      have pe: "(2::real) powr (of_int E) = 2 ^ s * 2 powr (of_int e)"
      proof -
        have "of_int E = real s + of_int e" using s(2) by linarith
        then show ?thesis by (simp only: powr_add powr_realpow zero_less_numeral)
      qed
      have "dyadic mr er - dyadic m e = (of_int mr * 2 ^ s - of_int m) * 2 powr (of_int e)"
        by (simp add: dyadic_powr er pe algebra_simps)
      then have "\<bar>dyadic mr er - dyadic m e\<bar> = \<bar>of_int mr * 2 ^ s - of_int m\<bar> * 2 powr (of_int e)"
        by (simp add: abs_mult)
      also have "\<dots> \<le> 2 ^ (s - 1) * 2 powr (of_int e)"
        using i by (intro mult_right_mono) simp_all
      also have "\<dots> = 2 powr (of_int E - 1)"
      proof -
        have "of_int E - 1 = real (s - 1) + of_int e" using s by linarith
        then show ?thesis by (simp only: powr_add powr_realpow zero_less_numeral)
      qed
      finally have err: "\<bar>dyadic mr er - dyadic m e\<bar> \<le> 2 powr (of_int E - 1)" .
      have El: "E \<le> - 21"
      proof (cases "E = - 1074")
        case True
        then show ?thesis by simp
      next
        case ne: False
        then have En: "E = e + n - 53" unfolding E_def by linarith
        with s(2) have sn: "int s = n - 53" by simp
        from False have mp: "0 < \<bar>m\<bar>" by simp
        from bitlen_bounds[OF mp] have "2 ^ nat (n - 1) \<le> \<bar>m\<bar>" unfolding n_def by simp
        moreover from sn s(1) have "nat (n - 1) = s + 52" by linarith
        ultimately have "2 ^ (s + 52) \<le> \<bar>m\<bar>" by simp
        from roundShift_big[OF s(1) this] have big: "2 ^ 52 \<le> \<bar>mr\<bar>" unfolding mr .
        then have "(2::real) ^ 52 \<le> \<bar>of_int mr\<bar>"
          by (metis of_int_abs of_int_le_iff of_int_numeral of_int_power)
        then have "(2::real) ^ 52 * 2 powr (of_int E) \<le> \<bar>of_int mr\<bar> * 2 powr (of_int E)"
          by (intro mult_right_mono) simp_all
        also have "\<dots> = \<bar>dyadic mr er\<bar>" by (simp add: dyadic_powr er abs_mult)
        also have "\<dots> \<le> \<bar>of_int k\<bar> + 1 / 2" using ke by linarith
        also have "\<dots> \<le> 2 ^ 31 + 1 / 2"
        proof -
          from kr have "\<bar>k\<bar> \<le> 2 ^ 31" by linarith
          then have "\<bar>real_of_int k\<bar> \<le> 2 ^ 31"
            by (metis of_int_abs of_int_le_iff of_int_numeral of_int_power)
          then show ?thesis by simp
        qed
        also have "\<dots> < (2::real) ^ 32" by simp
        finally have lt: "(2::real) ^ 52 * 2 powr (of_int E) < 2 ^ 32" .
        have "(2::real) powr (52 + of_int E) = 2 powr 52 * 2 powr (of_int E)"
          by (rule powr_add)
        moreover have "(2::real) powr 52 = 2 ^ 52" "(2::real) powr 32 = 2 ^ 32" by simp_all
        ultimately have "(2::real) powr (52 + of_int E) < 2 powr 32" using lt by (simp only:)
        then have "52 + real_of_int E < 32" by (rule powr_less_cancel) simp
        then show ?thesis by linarith
      qed
      then have "real_of_int E - 1 \<le> - 22" by linarith
      then have "(2::real) powr (of_int E - 1) \<le> 2 powr (- 22)"
        by (intro powr_mono) simp_all
      also have "(2::real) powr (- 22) = 1 / 2 ^ 22"
        by (simp add: powr_minus_divide)
      finally show ?thesis using err by linarith
    qed
  qed
  with ke ex show ?thesis by linarith
qed

lemma t_key_finite:
  assumes "t_key t sf = Some k"
  shows "\<exists>mt et ms es. t = Finite mt et \<and> sf = Finite ms es"
proof (cases t)
  case (Finite mt et)
  with assms show ?thesis by (cases sf) (simp_all add: t_key_def split: if_splits)
next
  case (Infinity a)
  with assms show ?thesis by (cases sf) (simp_all add: t_key_def split: if_splits)
next
  case NaN
  with assms show ?thesis by (simp add: t_key_def)
qed

lemma t_key_round:
  assumes "t_key t sf = Some k"
  shows "\<exists>m e. fmul t sf = Finite m e \<and> k = std_round (dyadic m e)"
  using assms by (auto simp: t_key_def Let_def split: double.splits if_splits)

subsection \<open>Keys of some times\<close>

text \<open>
  The doubles nearest to 0.37, 0.35, 0.52 and the double \<open>10 ^ 20\<close>, with the scaling factor
  10. The double nearest to 0.35 is below 0.35, and its product with 10 rounds to the double
  3.5: the key is 4, where the nearest integer to the exact product is 3.
\<close>

lemma bitlen_eqI: "0 < x \<Longrightarrow> 2 ^ n \<le> x \<Longrightarrow> x < 2 ^ Suc n \<Longrightarrow> bitlen x = int (Suc n)"
proof -
  assume x: "0 < x" and l: "2 ^ n \<le> x" and u: "x < 2 ^ Suc n"
  from bitlen_bounds[OF x] have b: "2 ^ nat (bitlen x - 1) \<le> x" "x < 2 ^ nat (bitlen x)" by simp_all
  from x have p: "1 \<le> bitlen x" by (auto simp: bitlen_alt_def)
  from b(1) u have "(2::int) ^ nat (bitlen x - 1) < 2 ^ Suc n" by linarith
  then have 1: "nat (bitlen x - 1) < Suc n"
    by (rule power_less_imp_less_exp[rotated]) simp
  from l b(2) have "(2::int) ^ n < 2 ^ nat (bitlen x)" by linarith
  then have 2: "n < nat (bitlen x)"
    by (rule power_less_imp_less_exp[rotated]) simp
  from 1 2 p show ?thesis by linarith
qed

lemma t_key_037: "t_key (Finite 3332663724254167 (- 53)) (Finite 10 0) = Some 4"
proof -
  have b: "bitlen 33326637242541670 = 55"
    using bitlen_eqI[of 33326637242541670 54] by simp
  have r: "roundShift 33326637242541670 2 = 8331659310635418"
    by (simp add: roundShift_def Let_def)
  have b2: "bitlen 8331659310635418 = 53"
    using bitlen_eqI[of 8331659310635418 52] by simp
  show ?thesis
    by (simp add: t_key_def roundDouble_def b r b2 Let_def dyadic_def std_round_def)
qed

lemma t_key_035: "t_key (Finite 3152519739159347 (- 53)) (Finite 10 0) = Some 4"
proof -
  have b: "bitlen 31525197391593470 = 55"
    using bitlen_eqI[of 31525197391593470 54] by simp
  have r: "roundShift 31525197391593470 2 = 7881299347898368"
    by (simp add: roundShift_def Let_def)
  have b2: "bitlen 7881299347898368 = 53"
    using bitlen_eqI[of 7881299347898368 52] by simp
  show ?thesis
    by (simp add: t_key_def roundDouble_def b r b2 Let_def dyadic_def std_round_def)
qed

lemma exact_035: "std_round (dyadic 3152519739159347 (- 53) * dyadic 10 0) = 3"
  by (simp add: dyadic_def std_round_def)

lemma t_key_052: "t_key (Finite 1170935903116329 (- 51)) (Finite 10 0) = Some 5"
proof -
  have b: "bitlen 11709359031163290 = 54"
    using bitlen_eqI[of 11709359031163290 53] by simp
  have r: "roundShift 11709359031163290 (Suc 0) = 5854679515581645"
    by (simp add: roundShift_def Let_def)
  have b2: "bitlen 5854679515581645 = 53"
    using bitlen_eqI[of 5854679515581645 52] by simp
  show ?thesis
    by (simp add: t_key_def roundDouble_def b r b2 Let_def dyadic_def std_round_def)
qed

lemma t_key_1e20: "t_key (Finite 95367431640625 20) (Finite 10 0) = None"
proof -
  have b: "bitlen 953674316406250 = 50"
    using bitlen_eqI[of 953674316406250 49] by simp
  show ?thesis
    by (simp add: t_key_def roundDouble_def b Let_def dyadic_def std_round_def)
qed

subsection \<open>The answer of the check\<close>

text \<open>
  Claim C4. With a non-empty obstacle table, a state that passes the static check and a
  time whose key \<open>k\<close> fits an \<^verbatim>\<open>int\<close>: the time and the scaling factor are finite, the key is
  \<^verbatim>\<open>std::round\<close> of their product as a double, which is within \<open>1 / 2 + 1 / 2 ^ 22\<close> of their exact
  product, and the check answers false exactly when \<^verbatim>\<open>areStatesValid\<close> is false for some
  obstacle stored under \<open>k\<close>; no other entry of the table is read.
\<close>

theorem isValid_time_dynamic:
  assumes "dynObstacles_m chk \<noteq> Map.empty"
    and "isValid chk s"
    and "t_key t (scalingFactor_m chk) = Some k"
  shows "(\<exists>mt et ms es. t = Finite mt et \<and> scalingFactor_m chk = Finite ms es \<and>
            \<bar>of_int k - dyadic mt et * dyadic ms es\<bar> \<le> 1 / 2 + 1 / 2 ^ 22) \<and>
         (\<exists>m e. fmul t (scalingFactor_m chk) = Finite m e \<and> k = std_round (dyadic m e)) \<and>
         isValid_time chk s t =
           Some (\<not> (\<exists>obs st. dynObstacles_m chk k = Some obs \<and> st \<in> set obs \<and>
                      \<not> areStatesValid chk s st))"
proof (intro conjI)
  from t_key_finite[OF assms(3)] obtain mt et ms es
    where f: "t = Finite mt et" "scalingFactor_m chk = Finite ms es" by blast
  from assms(3) have "\<bar>of_int k - dyadic mt et * dyadic ms es\<bar> \<le> 1 / 2 + 1 / 2 ^ 22"
    unfolding f by (rule t_key_near)
  with f show "\<exists>mt et ms es. t = Finite mt et \<and> scalingFactor_m chk = Finite ms es \<and>
            \<bar>of_int k - dyadic mt et * dyadic ms es\<bar> \<le> 1 / 2 + 1 / 2 ^ 22" by blast
next
  from assms(3) show "\<exists>m e. fmul t (scalingFactor_m chk) = Finite m e \<and>
      k = std_round (dyadic m e)" by (rule t_key_round)
next
  from assms show "isValid_time chk s t =
           Some (\<not> (\<exists>obs st. dynObstacles_m chk k = Some obs \<and> st \<in> set obs \<and>
                      \<not> areStatesValid chk s st))"
    by (auto simp: isValid_time_def obstaclesValid_iff split: option.splits)
qed

text \<open>
  The scenario of the specification: scaling factor 10 and time 0.37 give key 4; the state
  5 collides with the second obstacle stored there, the state 6 with none. And time 0.35
  gives key 4 as well: the state 5 collides with the obstacle stored under 4, and the
  entry under 3 is not read.
\<close>

theorem isValid_time_dynamic_witness:
  "t_key (Finite 3332663724254167 (- 53)) (Finite 10 0) = Some 4 \<and>
   \<bar>of_int 4 - dyadic 3332663724254167 (- 53) * dyadic 10 0\<bar> \<le> 1 / 2 + 1 / 2 ^ 22 \<and>
   isValid_time \<lparr>isValid = (\<lambda>s::nat. True), areStatesValid = (\<lambda>s (si::nat, s'). s \<noteq> s'),
                 dynObstacles_m = [4 \<mapsto> [(0, 7), (1, 5)]], scalingFactor_m = Finite 10 0\<rparr>
     5 (Finite 3332663724254167 (- 53)) = Some False \<and>
   isValid_time \<lparr>isValid = (\<lambda>s::nat. True), areStatesValid = (\<lambda>s (si::nat, s'). s \<noteq> s'),
                 dynObstacles_m = [4 \<mapsto> [(0, 7), (1, 5)]], scalingFactor_m = Finite 10 0\<rparr>
     6 (Finite 3332663724254167 (- 53)) = Some True \<and>
   t_key (Finite 3152519739159347 (- 53)) (Finite 10 0) = Some 4 \<and>
   isValid_time \<lparr>isValid = (\<lambda>s::nat. True), areStatesValid = (\<lambda>s (si::nat, s'). s \<noteq> s'),
                 dynObstacles_m = [3 \<mapsto> [(3, 9)], 4 \<mapsto> [(4, 5)]],
                 scalingFactor_m = Finite 10 0\<rparr>
     5 (Finite 3152519739159347 (- 53)) = Some False"
proof -
  let ?chk = "\<lparr>isValid = (\<lambda>s::nat. True), areStatesValid = (\<lambda>s (si::nat, s'). s \<noteq> s'),
                 dynObstacles_m = [4 \<mapsto> [(0, 7), (1, 5)]], scalingFactor_m = Finite 10 0\<rparr>"
  let ?chk2 = "\<lparr>isValid = (\<lambda>s::nat. True), areStatesValid = (\<lambda>s (si::nat, s'). s \<noteq> s'),
                 dynObstacles_m = [3 \<mapsto> [(3, 9)], 4 \<mapsto> [(4, 5)]],
                 scalingFactor_m = Finite 10 0\<rparr>"
  have k: "t_key (Finite 3332663724254167 (- 53)) (scalingFactor_m ?chk) = Some 4"
    using t_key_037 by simp
  have k2: "t_key (Finite 3152519739159347 (- 53)) (scalingFactor_m ?chk2) = Some 4"
    using t_key_035 by simp
  have ne: "dynObstacles_m ?chk \<noteq> Map.empty" "dynObstacles_m ?chk2 \<noteq> Map.empty"
    by simp_all
  have v: "isValid ?chk 5" "isValid ?chk 6" "isValid ?chk2 5" by simp_all
  from isValid_time_dynamic[OF ne(1) v(1) k]
  have 1: "\<bar>of_int 4 - dyadic 3332663724254167 (- 53) * dyadic 10 0\<bar> \<le> 1 / 2 + 1 / 2 ^ 22"
    "isValid_time ?chk 5 (Finite 3332663724254167 (- 53)) = Some False"
    by simp_all
  from isValid_time_dynamic[OF ne(1) v(2) k]
  have 2: "isValid_time ?chk 6 (Finite 3332663724254167 (- 53)) = Some True"
    by simp
  from isValid_time_dynamic[OF ne(2) v(3) k2]
  have 3: "isValid_time ?chk2 5 (Finite 3152519739159347 (- 53)) = Some False"
    by simp
  from 1 2 3 t_key_037 t_key_035 show ?thesis by (simp only: simp_thms)
qed

text \<open>
  Claim C10. With an empty obstacle table the timed check is the static check, whatever
  the time (no key is computed, so a time whose key would not fit an \<^verbatim>\<open>int\<close> is harmless);
  and when the table has no entry under the key of the time, the timed check is the static
  check as well.
\<close>

theorem isValid_time_static:
  "(dynObstacles_m chk = Map.empty \<longrightarrow> isValid_time chk s t = Some (isValid chk s)) \<and>
   (t_key t (scalingFactor_m chk) = Some k \<and> dynObstacles_m chk k = None \<longrightarrow>
      isValid_time chk s t = Some (isValid chk s))"
  by (auto simp: isValid_time_def split: option.splits)

text \<open>
  An empty table and the time \<open>10 ^ 20\<close>, whose key does not fit; the time 0.52, of key 5,
  and the time 0.35, of key 4, with a table that has entries under other keys only.
\<close>

theorem isValid_time_static_witness:
  "t_key (Finite 95367431640625 20) (Finite 10 0) = None \<and>
   isValid_time \<lparr>isValid = (\<lambda>s::nat. s < 3), areStatesValid = (\<lambda>s (si::nat, s'). s \<noteq> s'),
                 dynObstacles_m = Map.empty, scalingFactor_m = Finite 10 0\<rparr>
     2 (Finite 95367431640625 20) = Some True \<and>
   t_key (Finite 1170935903116329 (- 51)) (Finite 10 0) = Some 5 \<and>
   isValid_time \<lparr>isValid = (\<lambda>s::nat. s < 3), areStatesValid = (\<lambda>s (si::nat, s'). s \<noteq> s'),
                 dynObstacles_m = [3 \<mapsto> [(0, 2)], 4 \<mapsto> [(0, 2)]],
                 scalingFactor_m = Finite 10 0\<rparr>
     2 (Finite 1170935903116329 (- 51)) = Some True \<and>
   isValid_time \<lparr>isValid = (\<lambda>s::nat. s < 3), areStatesValid = (\<lambda>s (si::nat, s'). s \<noteq> s'),
                 dynObstacles_m = [3 \<mapsto> [(0, 2)]], scalingFactor_m = Finite 10 0\<rparr>
     2 (Finite 3152519739159347 (- 53)) = Some True \<and>
   isValid_time \<lparr>isValid = (\<lambda>s::nat. s < 3), areStatesValid = (\<lambda>s (si::nat, s'). s \<noteq> s'),
                 dynObstacles_m = [3 \<mapsto> [(0, 2)]], scalingFactor_m = Finite 10 0\<rparr>
     7 (Finite 3152519739159347 (- 53)) = Some False"
proof -
  let ?c1 = "\<lparr>isValid = (\<lambda>s::nat. s < 3), areStatesValid = (\<lambda>s (si::nat, s'). s \<noteq> s'),
                 dynObstacles_m = Map.empty, scalingFactor_m = Finite 10 0\<rparr>"
  let ?c2 = "\<lparr>isValid = (\<lambda>s::nat. s < 3), areStatesValid = (\<lambda>s (si::nat, s'). s \<noteq> s'),
                 dynObstacles_m = [3 \<mapsto> [(0, 2)], 4 \<mapsto> [(0, 2)]],
                 scalingFactor_m = Finite 10 0\<rparr>"
  let ?c3 = "\<lparr>isValid = (\<lambda>s::nat. s < 3), areStatesValid = (\<lambda>s (si::nat, s'). s \<noteq> s'),
                 dynObstacles_m = [3 \<mapsto> [(0, 2)]], scalingFactor_m = Finite 10 0\<rparr>"
  have k: "t_key (Finite 1170935903116329 (- 51)) (scalingFactor_m ?c2) = Some 5"
    "t_key (Finite 3152519739159347 (- 53)) (scalingFactor_m ?c3) = Some 4"
    using t_key_052 t_key_035 by simp_all
  have e: "dynObstacles_m ?c1 = Map.empty" by simp
  have n: "dynObstacles_m ?c2 5 = None" "dynObstacles_m ?c3 4 = None" by simp_all
  from isValid_time_static[of ?c1 2 "Finite 95367431640625 20"] e
  have 1: "isValid_time ?c1 2 (Finite 95367431640625 20) = Some True" by simp
  from isValid_time_static[of ?c2 2 "Finite 1170935903116329 (- 51)" 5] k(1) n(1)
  have 2: "isValid_time ?c2 2 (Finite 1170935903116329 (- 51)) = Some True" by simp
  from isValid_time_static[of ?c3 2 "Finite 3152519739159347 (- 53)" 4] k(2) n(2)
  have 3: "isValid_time ?c3 2 (Finite 3152519739159347 (- 53)) = Some True" by simp
  from isValid_time_static[of ?c3 7 "Finite 3152519739159347 (- 53)" 4] k(2) n(2)
  have 4: "isValid_time ?c3 7 (Finite 3152519739159347 (- 53)) = Some False" by simp
  from 1 2 3 4 t_key_1e20 t_key_052 show ?thesis by (simp only: simp_thms)
qed

section \<open>Pruned vertices and preconditions\<close>

lemmas vertex_getters =
  getId_def stateConst_def state_def isRoot_def hasParent_def isInTree_def getDepth_def
  getParentConst_def getParent_def hasChildren_def getCost_def getEdgeInCost_def isNew_def
  markNew_def markOld_def hasBeenExpandedToSamples_def markExpandedToSamples_def
  markUnexpandedToSamples_def hasBeenExpandedToVertices_def markExpandedToVertices_def
  markUnexpandedToVertices_def markPruned_def getChildrenConst_def getChildren_def

lemma assert_pruned_debug: "isPruned_m v \<Longrightarrow> ASSERT_NOT_PRUNED True v = Inl PrunedVertex"
  by (simp add: ASSERT_NOT_PRUNED_def assertNotPruned_def)

text \<open>
  Claim C2, as stated, fails where \<^verbatim>\<open>BITSTAR_DEBUG\<close> is not defined: the assertion is
  compiled out and \<^verbatim>\<open>getCost\<close> of a pruned vertex returns its cost.
\<close>

theorem pruned_vertex_release_counterexample:
  "isPruned_m (exVertex 0 False True None \<infinity> 3 0 []) \<and>
   getCost False (exVertex 0 False True None \<infinity> 3 0 []) = Inr 3"
  by (simp add: exVertex_def getCost_def ASSERT_NOT_PRUNED_def)

text \<open>
  Claim C2, amended. Where \<^verbatim>\<open>BITSTAR_DEBUG\<close> is defined, every public operation of a pruned
  vertex other than \<^verbatim>\<open>isPruned\<close> and \<^verbatim>\<open>markUnpruned\<close> throws the pruned-vertex exception and
  leaves the store as it was; \<^verbatim>\<open>isPruned\<close> and \<^verbatim>\<open>markUnpruned\<close> succeed, in every build
  (the flag \<open>b\<close>).
\<close>

theorem pruned_vertex_inert_debug:
  assumes "dbg" and "isPruned_m v" and "h this = Some v"
  shows "getId dbg v = Inl PrunedVertex \<and> stateConst dbg v = Inl PrunedVertex \<and>
         state dbg v = Inl PrunedVertex \<and> isRoot dbg v = Inl PrunedVertex \<and>
         hasParent dbg v = Inl PrunedVertex \<and> isInTree dbg v = Inl PrunedVertex \<and>
         getDepth dbg v = Inl PrunedVertex \<and> getParentConst dbg v = Inl PrunedVertex \<and>
         getParent dbg v = Inl PrunedVertex \<and> hasChildren dbg v = Inl PrunedVertex \<and>
         getChildrenConst dbg h v = Inl PrunedVertex \<and> getChildren dbg h v = Inl PrunedVertex \<and>
         getCost dbg v = Inl PrunedVertex \<and> getEdgeInCost dbg v = Inl PrunedVertex \<and>
         isNew dbg v = Inl PrunedVertex \<and> markNew dbg v = Inl PrunedVertex \<and>
         markOld dbg v = Inl PrunedVertex \<and>
         hasBeenExpandedToSamples dbg v = Inl PrunedVertex \<and>
         markExpandedToSamples dbg v = Inl PrunedVertex \<and>
         markUnexpandedToSamples dbg v = Inl PrunedVertex \<and>
         hasBeenExpandedToVertices dbg v = Inl PrunedVertex \<and>
         markExpandedToVertices dbg v = Inl PrunedVertex \<and>
         markUnexpandedToVertices dbg v = Inl PrunedVertex \<and>
         markPruned dbg v = Inl PrunedVertex \<and>
         addParent dbg n this p e c h = Some (Inl PrunedVertex, h) \<and>
         removeParent dbg n this c h = Some (Inl PrunedVertex, h) \<and>
         addChild dbg n this w c h = Some (Inl PrunedVertex, h) \<and>
         removeChild dbg n this w c h = Some (Inl PrunedVertex, h) \<and>
         isPruned b v = Inr True \<and>
         markUnpruned b v = Inr (v\<lparr>isPruned_m := False\<rparr>)"
  using assms
  by (simp add: vertex_getters assert_pruned_debug addParent_def removeParent_def addChild_def
      removeChild_def isPruned_def markUnpruned_def)

theorem pruned_vertex_inert_debug_witness:
  "getCost True (exVertex 0 False True None \<infinity> 3 0 []) = Inl PrunedVertex \<and>
   getChildren True [0 \<mapsto> exVertex 0 False True None \<infinity> 3 0 []]
     (exVertex 0 False True None \<infinity> 3 0 []) = Inl PrunedVertex \<and>
   addParent True 1 0 (Some 1) 2 True [0 \<mapsto> exVertex 0 False True None \<infinity> 3 0 []] =
     Some (Inl PrunedVertex, [0 \<mapsto> exVertex 0 False True None \<infinity> 3 0 []]) \<and>
   isPruned True (exVertex 0 False True None \<infinity> 3 0 []) = Inr True \<and>
   markUnpruned True (exVertex 0 False True None \<infinity> 3 0 []) =
     Inr (exVertex 0 False False None \<infinity> 3 0 [])"
proof -
  let ?v = "exVertex 0 False True None \<infinity> 3 0 []"
  have p: "isPruned_m ?v" by (simp add: exVertex_def)
  have u: "?v\<lparr>isPruned_m := False\<rparr> = exVertex 0 False False None \<infinity> 3 0 []"
    by (simp add: exVertex_def)
  have l: "[(0::addr) \<mapsto> ?v] 0 = Some ?v" by simp
  from pruned_vertex_inert_debug[of True ?v "[0 \<mapsto> ?v]" 0 1 "Some 1" 2 True 0 True,
      OF TrueI p l] u
  show ?thesis by simp
qed

text \<open>
  Claim C9, as stated, fails where \<^verbatim>\<open>BITSTAR_DEBUG\<close> is not defined: \<^verbatim>\<open>markPruned\<close> of a
  pruned vertex returns normally and leaves the vertex as it was.
\<close>

theorem markPruned_release_counterexample:
  "isPruned_m (exVertex 0 False True None \<infinity> 3 0 []) \<and>
   markPruned False (exVertex 0 False True None \<infinity> 3 0 []) =
     Inr (exVertex 0 False True None \<infinity> 3 0 [])"
  by (simp add: exVertex_def markPruned_def ASSERT_NOT_PRUNED_def)

text \<open>
  Claim C9, amended. \<^verbatim>\<open>markPruned\<close> is guarded by the assertion that guards the other
  operations: it throws the pruned-vertex exception exactly when \<^verbatim>\<open>getCost\<close> does, which
  is on a pruned vertex where \<^verbatim>\<open>BITSTAR_DEBUG\<close> is defined; otherwise it sets the flag.
  \<^verbatim>\<open>markUnpruned\<close> succeeds on every vertex.
\<close>

theorem markPruned_guard:
  "(dbg \<and> isPruned_m v \<longrightarrow> markPruned dbg v = Inl PrunedVertex) \<and>
   (markPruned dbg v = Inl PrunedVertex \<longleftrightarrow> getCost dbg v = Inl PrunedVertex) \<and>
   (\<not> (dbg \<and> isPruned_m v) \<longrightarrow> markPruned dbg v = Inr (v\<lparr>isPruned_m := True\<rparr>)) \<and>
   markUnpruned dbg v = Inr (v\<lparr>isPruned_m := False\<rparr>)"
  by (auto simp: markPruned_def markUnpruned_def getCost_def ASSERT_NOT_PRUNED_def
      assertNotPruned_def)

theorem markPruned_guard_witness:
  "markPruned True (exVertex 0 False True None \<infinity> 3 0 []) = Inl PrunedVertex \<and>
   markPruned True (exVertex 0 False False None \<infinity> 3 0 []) =
     Inr (exVertex 0 False True None \<infinity> 3 0 []) \<and>
   markUnpruned True (exVertex 0 False True None \<infinity> 3 0 []) =
     Inr (exVertex 0 False False None \<infinity> 3 0 [])"
proof -
  let ?v = "exVertex 0 False True None \<infinity> 3 0 []"
  let ?w = "exVertex 0 False False None \<infinity> 3 0 []"
  have p: "isPruned_m ?v" "\<not> isPruned_m ?w" by (simp_all add: exVertex_def)
  have u: "?v\<lparr>isPruned_m := False\<rparr> = ?w" "?w\<lparr>isPruned_m := True\<rparr> = ?v"
    by (simp_all add: exVertex_def)
  from markPruned_guard[of True ?v] markPruned_guard[of True ?w] p u
  show ?thesis by simp
qed

text \<open>
  Claim C7, as stated, fails where \<^verbatim>\<open>BITSTAR_DEBUG\<close> is not defined: \<^verbatim>\<open>addParent\<close> on a
  vertex whose parent is vertex 1 returns normally, and the parent is vertex 2 afterwards.
\<close>

theorem addParent_release_counterexample:
  "addParent False (Suc 0) 0 (Some 2) 5 False
     [0 \<mapsto> exVertex 0 False False (Some 1) 3 3 1 [],
      1 \<mapsto> exVertex 1 True False None \<infinity> 0 0 [0],
      2 \<mapsto> exVertex 2 True False None \<infinity> 0 0 []] =
   Some (Inr (),
     [0 \<mapsto> exVertex 0 False False (Some 2) 5 5 1 [],
      1 \<mapsto> exVertex 1 True False None \<infinity> 0 0 [0],
      2 \<mapsto> exVertex 2 True False None \<infinity> 0 0 []])"
  by (simp add: addParent_def ASSERT_NOT_PRUNED_def exVertex_def getCost_def getDepth_def
      natCosts_def fun_upd_twist)

text \<open>
  Claim C7, amended. Where \<^verbatim>\<open>BITSTAR_DEBUG\<close> is defined, \<^verbatim>\<open>addParent\<close> on a vertex that is
  root or has a parent throws, and the store is as it was: no parent is replaced and none
  is attached to a root.
\<close>

theorem addParent_precondition_debug:
  assumes "dbg" and "h this = Some v" and "isRoot_m v \<or> parentSPtr_m v \<noteq> None"
  shows "addParent dbg n this newParent e c h =
           Some (Inl (if isPruned_m v then PrunedVertex
                      else if parentSPtr_m v \<noteq> None then AlreadyHasParent
                      else AddParentToRoot), h)"
  using assms
  by (auto simp: addParent_def ASSERT_NOT_PRUNED_def assertNotPruned_def hasParent_def
      isRoot_def)

theorem addParent_precondition_debug_witness:
  "addParent True (Suc 0) 0 (Some 2) 5 False
     [0 \<mapsto> exVertex 0 False False (Some 1) 3 3 1 [],
      1 \<mapsto> exVertex 1 True False None \<infinity> 0 0 [0],
      2 \<mapsto> exVertex 2 True False None \<infinity> 0 0 []] =
   Some (Inl AlreadyHasParent,
     [0 \<mapsto> exVertex 0 False False (Some 1) 3 3 1 [],
      1 \<mapsto> exVertex 1 True False None \<infinity> 0 0 [0],
      2 \<mapsto> exVertex 2 True False None \<infinity> 0 0 []]) \<and>
   addParent True (Suc 0) 1 (Some 2) 5 False
     [0 \<mapsto> exVertex 0 False False (Some 1) 3 3 1 [],
      1 \<mapsto> exVertex 1 True False None \<infinity> 0 0 [0],
      2 \<mapsto> exVertex 2 True False None \<infinity> 0 0 []] =
   Some (Inl AddParentToRoot,
     [0 \<mapsto> exVertex 0 False False (Some 1) 3 3 1 [],
      1 \<mapsto> exVertex 1 True False None \<infinity> 0 0 [0],
      2 \<mapsto> exVertex 2 True False None \<infinity> 0 0 []])"
proof -
  let ?h = "[(0::addr) \<mapsto> exVertex 0 False False (Some 1) 3 3 1 [],
      1 \<mapsto> exVertex 1 True False None \<infinity> 0 0 [0],
      2 \<mapsto> exVertex 2 True False None \<infinity> 0 0 []]"
  have a: "?h 0 = Some (exVertex 0 False False (Some 1) 3 3 1 [])" by simp
  have b: "?h 1 = Some (exVertex 1 True False None \<infinity> 0 0 [0])" by simp
  have pa: "isRoot_m (exVertex 0 False False (Some 1) 3 3 1 []) \<or>
            parentSPtr_m (exVertex 0 False False (Some 1) 3 3 1 []) \<noteq> None"
    by (simp add: exVertex_def)
  have pb: "isRoot_m (exVertex 1 True False None \<infinity> 0 0 [0]) \<or>
            parentSPtr_m (exVertex 1 True False None \<infinity> 0 0 [0]) \<noteq> None"
    by (simp add: exVertex_def)
  from addParent_precondition_debug[of True ?h 0 _ "Suc 0" "Some 2" 5 False, OF TrueI a pa]
       addParent_precondition_debug[of True ?h 1 _ "Suc 0" "Some 2" 5 False, OF TrueI b pb]
  show ?thesis by (simp add: exVertex_def)
qed

section \<open>The cost propagator keeps the shape of the store\<close>

lemma updateCostAndDepth_Suc:
  "updateCostAndDepth dbg (Suc n) this c h =
     (case updateOwn dbg c this h of
        (Inl e, h1) \<Rightarrow> Some (Inl e, h1)
      | (Inr cs, h1) \<Rightarrow> if c then updateChildren dbg n cs h1 else Some (Inr (), h1))"
  by (simp add: updateOwn_def ASSERT_NOT_PRUNED_def assertNotPruned_def getCost_def
      getDepth_def isRoot_def hasParent_def Let_def split: option.split)

declare updateCostAndDepth.simps(2) [simp del]

lemma sameFieldsI: "v' = v\<lparr>cost_m := c, depth_m := d\<rparr> \<Longrightarrow> sameFields v v'"
  by (simp add: sameFields_def)

lemma sameFields_refl: "sameFields v v"
  by (simp add: sameFields_def)

lemma sameFields_trans: "sameFields v v1 \<Longrightarrow> sameFields v1 v2 \<Longrightarrow> sameFields v v2"
  unfolding sameFields_def
proof -
  assume a: "v1 = v\<lparr>cost_m := cost_m v1, depth_m := depth_m v1\<rparr>"
    and b: "v2 = v1\<lparr>cost_m := cost_m v2, depth_m := depth_m v2\<rparr>"
  have "v2 = v\<lparr>cost_m := cost_m v1, depth_m := depth_m v1\<rparr>\<lparr>cost_m := cost_m v2, depth_m := depth_m v2\<rparr>"
    using a b by simp
  then show "v2 = v\<lparr>cost_m := cost_m v2, depth_m := depth_m v2\<rparr>" by simp
qed

lemma sameShape_refl: "sameShape h h"
  by (simp add: sameShape_def option.rel_refl sameFields_refl)

lemma sameShape_trans:
  assumes "sameShape h h1" and "sameShape h1 h2"
  shows "sameShape h h2"
  unfolding sameShape_def
proof
  fix a
  from assms have "rel_option sameFields (h a) (h1 a)" "rel_option sameFields (h1 a) (h2 a)"
    by (simp_all add: sameShape_def)
  then show "rel_option sameFields (h a) (h2 a)"
    by (cases "h a"; cases "h1 a"; cases "h2 a") (auto intro: sameFields_trans)
qed

lemma sameShape_upd:
  assumes "h a = Some v" and "sameFields v v'"
  shows "sameShape h (h(a \<mapsto> v'))"
  using assms by (simp add: sameShape_def option.rel_refl sameFields_refl)

lemma updateOwn_sameShape:
  assumes "updateOwn dbg c this h = (r, h1)"
  shows "sameShape h h1"
proof (cases "h this")
  case None
  with assms show ?thesis by (simp add: updateOwn_def sameShape_refl)
next
  case (Some v)
  have "h1 = h \<or> (\<exists>v'. h1 = h(this \<mapsto> v') \<and> sameFields v v')"
    using assms Some unfolding updateOwn_def
    by (auto simp: sameFields_def split: option.splits if_splits)
  with Some show ?thesis by (auto simp: sameShape_refl intro: sameShape_upd)
qed

lemma updateChildren_sameShape_step:
  fixes h :: "'c heap"
  assumes u: "\<And>this c (h::'c heap) r h'.
                updateCostAndDepth dbg n this c h = Some (r, h') \<Longrightarrow> sameShape h h'"
  shows "updateChildren dbg n cs h = Some (r, h') \<Longrightarrow> sameShape h h'"
proof (induction cs arbitrary: h)
  case Nil
  then show ?case by (simp add: sameShape_refl)
next
  case (Cons a cs)
  show ?case
  proof (cases "dbg \<and> h a = None")
    case True
    with Cons.prems show ?thesis by (auto simp: sameShape_refl)
  next
    case False
    show ?thesis
    proof (cases "updateCostAndDepth dbg n a True h")
      case None
      with Cons.prems False show ?thesis by auto
    next
      case (Some p)
      obtain r1 h1 where p: "p = (r1, h1)" by (cases p)
      from u[OF Some[unfolded p]] have s1: "sameShape h h1" .
      show ?thesis
      proof (cases r1)
        case (Inl e)
        with Cons.prems False Some p have "h' = h1" by auto
        with s1 show ?thesis by simp
      next
        case (Inr x)
        with Cons.prems False Some p have "updateChildren dbg n cs h1 = Some (r, h')" by auto
        from Cons.IH[OF this] s1 show ?thesis by (blast intro: sameShape_trans)
      qed
    qed
  qed
qed

lemma updateCostAndDepth_sameShape:
  fixes h :: "'c heap"
  shows "updateCostAndDepth dbg n this c h = Some (r, h') \<Longrightarrow> sameShape h h'"
proof (induction n arbitrary: this c h r h')
  case 0
  then show ?case by simp
next
  case (Suc n)
  obtain r1 h1 where o: "updateOwn dbg c this h = (r1, h1)" by (cases "updateOwn dbg c this h")
  have s1: "sameShape h h1" by (rule updateOwn_sameShape[OF o])
  show ?case
  proof (cases r1)
    case (Inl e)
    with Suc.prems o have "h' = h1" by (simp add: updateCostAndDepth_Suc)
    with s1 show ?thesis by simp
  next
    case (Inr cs')
    show ?thesis
    proof (cases c)
      case True
      with Suc.prems o Inr have ch: "updateChildren dbg n cs' h1 = Some (r, h')"
        by (simp add: updateCostAndDepth_Suc)
      have ih: "\<And>this c (h::'c heap) r h'.
                  updateCostAndDepth dbg n this c h = Some (r, h') \<Longrightarrow> sameShape h h'"
        by (rule Suc.IH)
      have "sameShape h1 h'" by (rule updateChildren_sameShape_step[OF ih ch])
      with s1 show ?thesis by (blast intro: sameShape_trans)
    next
      case False
      with Suc.prems o Inr have "h' = h1" by (simp add: updateCostAndDepth_Suc)
      with s1 show ?thesis by simp
    qed
  qed
qed

lemma updateChildren_sameShape:
  "updateChildren dbg n cs h = Some (r, h') \<Longrightarrow> sameShape h h'"
  by (rule updateChildren_sameShape_step[OF updateCostAndDepth_sameShape])


lemma sameShape_vId: "sameShape h h' \<Longrightarrow> map_option vId_m (h' a) = map_option vId_m (h a)"
proof -
  assume "sameShape h h'"
  then have "rel_option sameFields (h a) (h' a)" by (simp add: sameShape_def)
  then show ?thesis
  proof (cases rule: option.rel_cases)
    case None then show ?thesis by simp
  next
    case (Some x y)
    from Some(3) have "y = x\<lparr>cost_m := cost_m y, depth_m := depth_m y\<rparr>"
      by (simp add: sameFields_def)
    then have "vId_m y = vId_m (x\<lparr>cost_m := cost_m y, depth_m := depth_m y\<rparr>)" by simp
    then have "vId_m y = vId_m x" by simp
    with Some show ?thesis by simp
  qed
qed

lemma sameShape_children:
  "sameShape h h' \<Longrightarrow> h a = Some v \<Longrightarrow> \<exists>v'. h' a = Some v' \<and> childWPtrs_m v' = childWPtrs_m v"
proof -
  assume s: "sameShape h h'" and a: "h a = Some v"
  from s have "rel_option sameFields (h a) (h' a)" by (simp add: sameShape_def)
  with a obtain v' where v': "h' a = Some v'" "sameFields v v'"
    by (auto simp: option_rel_Some1)
  from v'(2) have "v' = v\<lparr>cost_m := cost_m v', depth_m := depth_m v'\<rparr>" by (simp add: sameFields_def)
  then have "childWPtrs_m v' = childWPtrs_m (v\<lparr>cost_m := cost_m v', depth_m := depth_m v'\<rparr>)" by simp
  then have "childWPtrs_m v' = childWPtrs_m v" by simp
  with v' show ?thesis by simp
qed

lemma getId_Inr: "getId dbg v = Inr i \<Longrightarrow> i = vId_m v"
  by (auto simp: getId_def split: sum.splits)

lemma findChild_Some:
  "findChild dbg h c xs = Inr (Some i) \<Longrightarrow>
     i < length xs \<and> (\<exists>cv ov. h (xs ! i) = Some cv \<and> h c = Some ov \<and> vId_m cv = vId_m ov)"
proof (induction xs arbitrary: i)
  case Nil
  then show ?case by simp
next
  case (Cons a xs)
  from Cons.prems obtain cv ov where l: "h a = Some cv" "h c = Some ov"
    by (auto split: if_splits option.splits)
  from Cons.prems l obtain j k where g: "getId dbg cv = Inr j" "getId dbg ov = Inr k"
    by (auto split: if_splits sum.splits)
  show ?case
  proof (cases "j = k")
    case True
    with Cons.prems l g have "i = 0" by (auto split: if_splits)
    with True l g show ?thesis by (auto dest!: getId_Inr)
  next
    case False
    with Cons.prems l g obtain i' where i': "findChild dbg h c xs = Inr (Some i')" "i = Suc i'"
      by (auto split: if_splits sum.splits option.splits)
    from Cons.IH[OF i'(1)] i'(2) show ?thesis by simp
  qed
qed

lemma findChild_append_self: "findChild dbg h c (xs @ [c]) \<noteq> Inr None"
proof (induction xs)
  case Nil
  show ?case by (auto split: option.splits sum.splits)
next
  case (Cons a xs)
  then show ?case by (auto split: option.splits sum.splits)
qed

lemma swapAndPop_snoc:
  "i < length xs \<Longrightarrow> swapAndPop (xs @ [c]) i = xs[i := c]"
  "swapAndPop (xs @ [c]) (length xs) = xs"
  by (simp_all add: swapAndPop_def list_update_append butlast_append)


lemma addChild_Inr:
  assumes "addChild dbg n this c u h = Some (Inr (), h1)"
  obtains v where "h this = Some v"
    and "sameShape (h(this \<mapsto> v\<lparr>childWPtrs_m := childWPtrs_m v @ [c]\<rparr>)) h1"
proof -
  from assms obtain v where v: "h this = Some v"
    by (auto simp: addChild_def split: option.splits)
  let ?h0 = "h(this \<mapsto> v\<lparr>childWPtrs_m := childWPtrs_m v @ [c]\<rparr>)"
  from assms v have "h1 = ?h0 \<or> updateCostAndDepth dbg n c True ?h0 = Some (Inr (), h1)"
    by (auto simp: addChild_def Let_def split: sum.splits if_splits)
  then have "sameShape ?h0 h1"
    by (auto simp: sameShape_refl dest: updateCostAndDepth_sameShape)
  with v that show thesis by blast
qed

lemma removeChild_Inr:
  assumes "removeChild dbg n this c u h = Some (Inr (), h2)" and "h this = Some v"
  obtains found where "findChild dbg h c (childWPtrs_m v) = Inr found"
    and "\<not> (dbg \<and> found = None)"
    and "sameShape (case found of None \<Rightarrow> h
           | Some i \<Rightarrow> h(this \<mapsto> v\<lparr>childWPtrs_m := swapAndPop (childWPtrs_m v) i\<rparr>)) h2"
proof -
  from assms obtain found where f: "findChild dbg h c (childWPtrs_m v) = Inr found"
    by (auto simp: removeChild_def split: sum.splits)
  let ?h1 = "case found of None \<Rightarrow> h
           | Some i \<Rightarrow> h(this \<mapsto> v\<lparr>childWPtrs_m := swapAndPop (childWPtrs_m v) i\<rparr>)"
  from assms f have nf: "\<not> (dbg \<and> found = None)"
    by (auto simp: removeChild_def Let_def split: sum.splits option.splits if_splits)
  from assms f have "h2 = ?h1 \<or> updateCostAndDepth dbg n c True ?h1 = Some (Inr (), h2)"
    by (auto simp: removeChild_def Let_def split: sum.splits option.splits if_splits)
  then have "sameShape ?h1 h2"
    by (auto simp: sameShape_refl dest: updateCostAndDepth_sameShape)
  with f nf that show thesis by blast
qed

text \<open>
  When \<^verbatim>\<open>addChild\<close> and then \<^verbatim>\<open>removeChild\<close> with the same target both return normally,
  the child list has the length it had before, and the ids of the children are the same
  multiset as before.
\<close>

lemma addChild_removeChild_lists:
  assumes add: "addChild dbg n this c u1 h = Some (Inr (), h1)"
    and rem: "removeChild dbg m this c u2 h1 = Some (Inr (), h2)"
  shows "\<exists>v v2. h this = Some v \<and> h2 this = Some v2 \<and>
           length (childWPtrs_m v2) = length (childWPtrs_m v) \<and>
           mset (map (\<lambda>a. map_option vId_m (h2 a)) (childWPtrs_m v2)) =
           mset (map (\<lambda>a. map_option vId_m (h a)) (childWPtrs_m v))"
proof -
  from add obtain v where v: "h this = Some v"
    and s1: "sameShape (h(this \<mapsto> v\<lparr>childWPtrs_m := childWPtrs_m v @ [c]\<rparr>)) h1"
    by (rule addChild_Inr)
  let ?xs = "childWPtrs_m v"
  let ?h0 = "h(this \<mapsto> v\<lparr>childWPtrs_m := ?xs @ [c]\<rparr>)"
  have id0: "\<And>a. map_option vId_m (?h0 a) = map_option vId_m (h a)"
    using v by simp
  from sameShape_children[OF s1, of this] obtain v1
    where v1: "h1 this = Some v1" "childWPtrs_m v1 = ?xs @ [c]" by auto
  from rem v1(1) obtain found where f: "findChild dbg h1 c (childWPtrs_m v1) = Inr found"
    and s2: "sameShape (case found of None \<Rightarrow> h1
           | Some i \<Rightarrow> h1(this \<mapsto> v1\<lparr>childWPtrs_m := swapAndPop (childWPtrs_m v1) i\<rparr>)) h2"
    by (rule removeChild_Inr)
  from f v1(2) findChild_append_self[of dbg h1 c ?xs] obtain i where i: "found = Some i"
    by (cases found) auto
  let ?ys = "swapAndPop (?xs @ [c]) i"
  let ?h1' = "h1(this \<mapsto> v1\<lparr>childWPtrs_m := ?ys\<rparr>)"
  from s2 i v1(2) have s2': "sameShape ?h1' h2" by simp
  have id1': "\<And>a. map_option vId_m (?h1' a) = map_option vId_m (h1 a)"
    using v1(1) by simp
  have ids: "\<And>a. map_option vId_m (h2 a) = map_option vId_m (h a)"
    using sameShape_vId[OF s2'] id1' sameShape_vId[OF s1] id0 by simp
  from sameShape_children[OF s2', of this] obtain v2
    where v2: "h2 this = Some v2" "childWPtrs_m v2 = ?ys" by auto
  from findChild_Some[OF f[unfolded i v1(2)]] obtain cv ov
    where il: "i < length (?xs @ [c])"
      and e: "h1 ((?xs @ [c]) ! i) = Some cv" "h1 c = Some ov" "vId_m cv = vId_m ov"
    by blast
  let ?f = "\<lambda>a. map_option vId_m (h a)"
  have ys: "length ?ys = length ?xs \<and> map ?f ?ys = map ?f ?xs"
  proof (cases "i < length ?xs")
    case True
    then have y: "?ys = ?xs[i := c]" by (simp add: swapAndPop_snoc)
    from True e have "map_option vId_m (h1 (?xs ! i)) = map_option vId_m (h1 c)"
      by (simp add: nth_append)
    then have "?f c = ?f (?xs ! i)"
      using sameShape_vId[OF s1] id0 by simp
    moreover have "(map ?f ?xs)[i := map ?f ?xs ! i] = map ?f ?xs"
      by (rule list_update_id)
    ultimately have "map ?f (?xs[i := c]) = map ?f ?xs"
      using True by (simp add: map_update)
    with y show ?thesis by simp
  next
    case False
    with il have "i = length ?xs" by simp
    then show ?thesis by (simp add: swapAndPop_snoc)
  qed
  have "mset (map (\<lambda>a. map_option vId_m (h2 a)) ?ys) = mset (map ?f ?ys)"
    using ids by simp
  with ys v v2 show ?thesis by simp
qed




section \<open>A cascade over a tree of vertices\<close>

lemma sameFields_sym: "sameFields v v' \<Longrightarrow> sameFields v' v"
proof -
  assume "sameFields v v'"
  then have e: "v' = v\<lparr>cost_m := cost_m v', depth_m := depth_m v'\<rparr>" by (simp add: sameFields_def)
  have "v'\<lparr>cost_m := cost_m v, depth_m := depth_m v\<rparr> =
        v\<lparr>cost_m := cost_m v', depth_m := depth_m v'\<rparr>\<lparr>cost_m := cost_m v, depth_m := depth_m v\<rparr>"
    using e by simp
  then have "v'\<lparr>cost_m := cost_m v, depth_m := depth_m v\<rparr> = v" by simp
  then show ?thesis by (simp add: sameFields_def)
qed

lemma sameFields_fields:
  assumes "sameFields v v'"
  shows "isPruned_m v' = isPruned_m v" "childWPtrs_m v' = childWPtrs_m v"
    "parentSPtr_m v' = parentSPtr_m v" "isRoot_m v' = isRoot_m v"
    "edgeCost_m v' = edgeCost_m v" "costHelpPtr_m v' = costHelpPtr_m v"
proof -
  from assms have e: "v' = v\<lparr>cost_m := cost_m v', depth_m := depth_m v'\<rparr>"
    by (simp add: sameFields_def)
  have "isPruned_m v' = isPruned_m (v\<lparr>cost_m := cost_m v', depth_m := depth_m v'\<rparr>)"
    using e by simp
  then show "isPruned_m v' = isPruned_m v" by simp
  have "childWPtrs_m v' = childWPtrs_m (v\<lparr>cost_m := cost_m v', depth_m := depth_m v'\<rparr>)"
    using e by simp
  then show "childWPtrs_m v' = childWPtrs_m v" by simp
  have "parentSPtr_m v' = parentSPtr_m (v\<lparr>cost_m := cost_m v', depth_m := depth_m v'\<rparr>)"
    using e by simp
  then show "parentSPtr_m v' = parentSPtr_m v" by simp
  have "isRoot_m v' = isRoot_m (v\<lparr>cost_m := cost_m v', depth_m := depth_m v'\<rparr>)"
    using e by simp
  then show "isRoot_m v' = isRoot_m v" by simp
  have "edgeCost_m v' = edgeCost_m (v\<lparr>cost_m := cost_m v', depth_m := depth_m v'\<rparr>)"
    using e by simp
  then show "edgeCost_m v' = edgeCost_m v" by simp
  have "costHelpPtr_m v' = costHelpPtr_m (v\<lparr>cost_m := cost_m v', depth_m := depth_m v'\<rparr>)"
    using e by simp
  then show "costHelpPtr_m v' = costHelpPtr_m v" by simp
qed

lemma sameShape_sym: "sameShape h h' \<Longrightarrow> sameShape h' h"
  unfolding sameShape_def
proof
  fix a
  assume "\<forall>a. rel_option sameFields (h a) (h' a)"
  then have "rel_option sameFields (h a) (h' a)" by simp
  then show "rel_option sameFields (h' a) (h a)"
    by (cases "h a"; cases "h' a") (auto intro: sameFields_sym)
qed

lemma sameShape_Some:
  "sameShape h h' \<Longrightarrow> h a = Some v \<Longrightarrow> \<exists>v'. h' a = Some v' \<and> sameFields v v'"
  by (cases "h' a") (auto simp: sameShape_def dest!: spec[of _ a])

lemma sameShape_None: "sameShape h h' \<Longrightarrow> h a = None \<Longrightarrow> h' a = None"
  by (cases "h' a") (auto simp: sameShape_def dest!: spec[of _ a])

lemma subtreeAt_sameShape_imp:
  "sameShape h h' \<Longrightarrow> subtreeAt h t \<Longrightarrow> subtreeAt h' t"
proof (induction t)
  case (VNode a ts)
  from VNode.prems(2) obtain v where v: "h a = Some v" "\<not> isPruned_m v"
      "childWPtrs_m v = map vroot ts"
    by (auto split: option.splits)
  from sameShape_Some[OF VNode.prems(1) v(1)] obtain v' where v': "h' a = Some v'" "sameFields v v'"
    by blast
  have ch: "(case h' (vroot t) of None \<Rightarrow> False
             | Some c \<Rightarrow> parentSPtr_m c = Some a \<and> \<not> isRoot_m c) \<and> subtreeAt h' t"
    if t: "t \<in> set ts" for t
  proof -
    from VNode.prems(2) v t obtain c where c: "h (vroot t) = Some c" "parentSPtr_m c = Some a"
        "\<not> isRoot_m c" and st: "subtreeAt h t"
      by (auto split: option.splits)
    from sameShape_Some[OF VNode.prems(1) c(1)] obtain c' where c': "h' (vroot t) = Some c'"
        "sameFields c c'" by blast
    from VNode.IH[OF t VNode.prems(1) st] c c' sameFields_fields[OF c'(2)]
    show ?thesis by simp
  qed
  from v v' sameFields_fields[OF v'(2)] ch show ?case by simp
qed

lemma subtreeAt_sameShape: "sameShape h h' \<Longrightarrow> subtreeAt h' t = subtreeAt h t"
  using subtreeAt_sameShape_imp sameShape_sym by blast

lemma ownOk_sameShape:
  assumes "sameShape h h'" and "sameFields v v'" and "ownOk dbg h v"
  shows "ownOk dbg h' v'"
proof (cases "isRoot_m v")
  case True
  with sameFields_fields[OF assms(2)] show ?thesis by (simp add: ownOk_def)
next
  case False
  show ?thesis
  proof (cases "parentSPtr_m v")
    case None
    with False assms(3) sameFields_fields[OF assms(2)] show ?thesis by (simp add: ownOk_def)
  next
    case (Some p)
    with False assms(3) obtain pv where pv: "h p = Some pv" "\<not> (dbg \<and> isPruned_m pv)"
        "\<not> (dbg \<and> \<not> isRoot_m pv \<and> parentSPtr_m pv = None)"
      by (auto simp: ownOk_def split: option.splits)
    from sameShape_Some[OF assms(1) pv(1)] obtain pv' where pv': "h' p = Some pv'"
        "sameFields pv pv'" by blast
    from Some pv pv' sameFields_fields[OF pv'(2)] sameFields_fields[OF assms(2)]
    show ?thesis by (simp add: ownOk_def)
  qed
qed

lemma updateOwn_ok:
  assumes "h a = Some v" and "\<not> isPruned_m v" and "ownOk dbg h v"
  shows "updateOwn dbg True a h = (Inr (childWPtrs_m v), h(a \<mapsto> ownCostAndDepth h v))"
  using assms
  by (auto simp: updateOwn_def ownOk_def ownCostAndDepth_def split: option.splits)

lemma sameFields_ownCostAndDepth: "sameFields v (ownCostAndDepth h v)"
  by (auto simp: ownCostAndDepth_def sameFields_def split: option.splits)

lemma vheight_sub: "t \<in> set ts \<Longrightarrow> vheight t \<le> foldr max (map vheight ts) 0"
  by (induction ts) (auto simp: max_def)


lemma updateChildren_refresh_step:
  fixes g :: "'c heap"
  assumes "\<And>t (g::'c heap) c. t \<in> set ts \<Longrightarrow> subtreeAt g t \<Longrightarrow> g (vroot t) = Some c \<Longrightarrow>
             ownOk dbg g c \<Longrightarrow>
             updateCostAndDepth dbg m (vroot t) True g = Some (Inr (), refresh g t)"
    and "\<forall>t \<in> set ts. subtreeAt g t \<and>
           (\<exists>c. g (vroot t) = Some c \<and> parentSPtr_m c = Some a \<and> \<not> isRoot_m c)"
    and "g a = Some av" and "\<not> isPruned_m av"
    and "\<not> (dbg \<and> \<not> isRoot_m av \<and> parentSPtr_m av = None)"
  shows "updateChildren dbg m (map vroot ts) g = Some (Inr (), fold (\<lambda>t g. refresh g t) ts g)"
  using assms
proof (induction ts arbitrary: g av)
  case Nil
  then show ?case by simp
next
  case (Cons t rest)
  from Cons.prems(2) obtain c where st: "subtreeAt g t" and c: "g (vroot t) = Some c"
      "parentSPtr_m c = Some a" "\<not> isRoot_m c"
    by auto
  from c Cons.prems(3,4,5) have "ownOk dbg g c" by (simp add: ownOk_def)
  with Cons.prems(1)[of t g c] st c(1)
  have u: "updateCostAndDepth dbg m (vroot t) True g = Some (Inr (), refresh g t)" by simp
  let ?g1 = "refresh g t"
  have ss: "sameShape g ?g1" by (rule updateCostAndDepth_sameShape[OF u])
  have r: "\<forall>t' \<in> set rest. subtreeAt ?g1 t' \<and>
           (\<exists>c. ?g1 (vroot t') = Some c \<and> parentSPtr_m c = Some a \<and> \<not> isRoot_m c)"
  proof
    fix t' assume t': "t' \<in> set rest"
    with Cons.prems(2) obtain c' where 1: "subtreeAt g t'" "g (vroot t') = Some c'"
        "parentSPtr_m c' = Some a" "\<not> isRoot_m c'" by auto
    from sameShape_Some[OF ss 1(2)] obtain c'' where 2: "?g1 (vroot t') = Some c''"
        "sameFields c' c''" by blast
    from 1 2 sameFields_fields[OF 2(2)] subtreeAt_sameShape[OF ss, of t']
    show "subtreeAt ?g1 t' \<and>
           (\<exists>c. ?g1 (vroot t') = Some c \<and> parentSPtr_m c = Some a \<and> \<not> isRoot_m c)"
      by simp
  qed
  from sameShape_Some[OF ss Cons.prems(3)] obtain av' where av': "?g1 a = Some av'"
      "sameFields av av'" by blast
  from Cons.prems(4,5) sameFields_fields[OF av'(2)]
  have a2: "\<not> isPruned_m av'" "\<not> (dbg \<and> \<not> isRoot_m av' \<and> parentSPtr_m av' = None)"
    by simp_all
  have "updateChildren dbg m (map vroot rest) ?g1 =
          Some (Inr (), fold (\<lambda>t g. refresh g t) rest ?g1)"
    by (rule Cons.IH[OF _ r av'(1) a2]) (rule Cons.prems(1), simp_all)
  with u c(1) show ?case by simp
qed

lemma updateCostAndDepth_refresh:
  fixes h :: "'c heap"
  shows "subtreeAt h t \<Longrightarrow> h (vroot t) = Some v \<Longrightarrow> ownOk dbg h v \<Longrightarrow> vheight t \<le> n \<Longrightarrow>
         updateCostAndDepth dbg n (vroot t) True h = Some (Inr (), refresh h t)"
proof (induction t arbitrary: h v n)
  case (VNode a ts)
  from VNode.prems(4) obtain m where n: "n = Suc m" and m: "foldr max (map vheight ts) 0 \<le> m"
    by (cases n) auto
  from VNode.prems(1,2) have v: "h a = Some v" "\<not> isPruned_m v" "childWPtrs_m v = map vroot ts"
    by (auto split: option.splits)
  let ?h1 = "h(a \<mapsto> ownCostAndDepth h v)"
  have own: "updateOwn dbg True a h = (Inr (map vroot ts), ?h1)"
    using updateOwn_ok[OF v(1,2) VNode.prems(3)] v(3) by simp
  have rf: "refresh h (VNode a ts) = fold (\<lambda>t g. refresh g t) ts ?h1"
    using v(1) by simp
  show ?case
  proof (cases "ts = []")
    case True
    with own n have "updateCostAndDepth dbg n a True h = Some (Inr (), ?h1)"
      by (simp add: updateCostAndDepth_Suc)
    moreover from True rf have "refresh h (VNode a ts) = ?h1" by simp
    ultimately show ?thesis by (simp only: vtree.sel)
  next
    case False
    have ss: "sameShape h ?h1"
      using v(1) sameFields_ownCostAndDepth[of v h] by (rule sameShape_upd)
    have ch: "\<forall>t \<in> set ts. subtreeAt ?h1 t \<and>
           (\<exists>c. ?h1 (vroot t) = Some c \<and> parentSPtr_m c = Some a \<and> \<not> isRoot_m c)"
    proof
      fix t assume t: "t \<in> set ts"
      with VNode.prems(1) v obtain c where 1: "subtreeAt h t" "h (vroot t) = Some c"
          "parentSPtr_m c = Some a" "\<not> isRoot_m c" by (auto split: option.splits)
      from sameShape_Some[OF ss 1(2)] obtain c' where 2: "?h1 (vroot t) = Some c'"
          "sameFields c c'" by blast
      from 1 2 sameFields_fields[OF 2(2)] subtreeAt_sameShape[OF ss, of t]
      show "subtreeAt ?h1 t \<and>
           (\<exists>c. ?h1 (vroot t) = Some c \<and> parentSPtr_m c = Some a \<and> \<not> isRoot_m c)"
        by simp
    qed
    have a1: "?h1 a = Some (ownCostAndDepth h v)" by simp
    have sf: "sameFields v (ownCostAndDepth h v)" by (rule sameFields_ownCostAndDepth)
    from False v(3) VNode.prems(3)
    have "\<not> (dbg \<and> \<not> isRoot_m v \<and> parentSPtr_m v = None)"
      by (auto simp: ownOk_def)
    with v(2) sameFields_fields[OF sf]
    have a2: "\<not> isPruned_m (ownCostAndDepth h v)"
      "\<not> (dbg \<and> \<not> isRoot_m (ownCostAndDepth h v) \<and> parentSPtr_m (ownCostAndDepth h v) = None)"
      by simp_all
    have ih: "\<And>t (g::'c heap) c. t \<in> set ts \<Longrightarrow> subtreeAt g t \<Longrightarrow> g (vroot t) = Some c \<Longrightarrow>
             ownOk dbg g c \<Longrightarrow>
             updateCostAndDepth dbg m (vroot t) True g = Some (Inr (), refresh g t)"
    proof -
      fix t and g :: "'c heap" and c
      assume t: "t \<in> set ts" and 1: "subtreeAt g t" "g (vroot t) = Some c" "ownOk dbg g c"
      from vheight_sub[OF t] m have "vheight t \<le> m" by simp
      from VNode.IH[OF t 1 this]
      show "updateCostAndDepth dbg m (vroot t) True g = Some (Inr (), refresh g t)" .
    qed
    have "updateChildren dbg m (map vroot ts) ?h1 =
            Some (Inr (), fold (\<lambda>t g. refresh g t) ts ?h1)"
      by (rule updateChildren_refresh_step[OF ih ch a1 a2])
    with own n have "updateCostAndDepth dbg n a True h =
            Some (Inr (), fold (\<lambda>t g. refresh g t) ts ?h1)"
      by (simp add: updateCostAndDepth_Suc)
    with rf show ?thesis by (simp only: vtree.sel)
  qed
qed


lemma children_sameShape:
  assumes "sameShape g g'"
    and "\<forall>t \<in> set ts. subtreeAt g t \<and>
           (\<exists>c. g (vroot t) = Some c \<and> parentSPtr_m c = Some a \<and> \<not> isRoot_m c)"
  shows "\<forall>t \<in> set ts. subtreeAt g' t \<and>
           (\<exists>c. g' (vroot t) = Some c \<and> parentSPtr_m c = Some a \<and> \<not> isRoot_m c)"
proof
  fix t assume t: "t \<in> set ts"
  with assms(2) obtain c where 1: "subtreeAt g t" "g (vroot t) = Some c"
      "parentSPtr_m c = Some a" "\<not> isRoot_m c" by auto
  from sameShape_Some[OF assms(1) 1(2)] obtain c' where 2: "g' (vroot t) = Some c'"
      "sameFields c c'" by blast
  from 1 2 sameFields_fields[OF 2(2)] subtreeAt_sameShape[OF assms(1), of t]
  show "subtreeAt g' t \<and>
           (\<exists>c. g' (vroot t) = Some c \<and> parentSPtr_m c = Some a \<and> \<not> isRoot_m c)"
    by simp
qed

lemma subtreeAt_children:
  assumes "subtreeAt h (VNode a ts)"
  shows "\<forall>t \<in> set ts. subtreeAt h t \<and>
           (\<exists>c. h (vroot t) = Some c \<and> parentSPtr_m c = Some a \<and> \<not> isRoot_m c)"
  using assms by (auto split: option.splits)

lemma fold_refresh_sameShape:
  fixes g :: "'c heap"
  assumes "\<And>t (g::'c heap). t \<in> set ts \<Longrightarrow> sameShape g (refresh g t)"
  shows "sameShape g (fold (\<lambda>t g. refresh g t) ts g)"
  using assms
proof (induction ts arbitrary: g)
  case Nil
  show ?case by (simp add: sameShape_refl)
next
  case (Cons t rest)
  have 1: "sameShape g (refresh g t)" by (rule Cons.prems) simp
  have 2: "sameShape (refresh g t) (fold (\<lambda>t g. refresh g t) rest (refresh g t))"
    by (rule Cons.IH) (rule Cons.prems, simp)
  from sameShape_trans[OF 1 2] show ?case by simp
qed

lemma refresh_sameShape:
  fixes h :: "'c heap"
  shows "sameShape h (refresh h t)"
proof (induction t arbitrary: h)
  case (VNode a ts)
  let ?h1 = "case h a of None \<Rightarrow> h | Some v \<Rightarrow> h(a \<mapsto> ownCostAndDepth h v)"
  have 1: "sameShape h ?h1"
  proof (cases "h a")
    case None
    then show ?thesis by (simp add: sameShape_refl)
  next
    case (Some v)
    from Some sameFields_ownCostAndDepth[of v h]
    have "sameShape h (h(a \<mapsto> ownCostAndDepth h v))" by (rule sameShape_upd)
    with Some show ?thesis by simp
  qed
  have 2: "sameShape ?h1 (fold (\<lambda>t g. refresh g t) ts ?h1)"
    by (rule fold_refresh_sameShape) (rule VNode.IH)
  from sameShape_trans[OF 1 2] show ?case by simp
qed

lemma fold_refresh_frame_step:
  fixes g :: "'c heap"
  assumes "\<And>t (g::'c heap). t \<in> set ts \<Longrightarrow> x \<notin> set (vaddrs t) \<Longrightarrow> refresh g t x = g x"
    and "x \<notin> set (concat (map vaddrs ts))"
  shows "fold (\<lambda>t g. refresh g t) ts g x = g x"
  using assms
proof (induction ts arbitrary: g)
  case Nil
  show ?case by simp
next
  case (Cons t rest)
  from Cons.prems(2) have x: "x \<notin> set (vaddrs t)" "x \<notin> set (concat (map vaddrs rest))"
    by simp_all
  have "fold (\<lambda>t g. refresh g t) rest (refresh g t) x = refresh g t x"
    by (rule Cons.IH[OF _ x(2)]) (rule Cons.prems(1), simp_all)
  also have "refresh g t x = g x" by (rule Cons.prems(1)[OF _ x(1)]) simp
  finally show ?case by simp
qed

lemma refresh_frame:
  fixes h :: "'c heap"
  shows "x \<notin> set (vaddrs t) \<Longrightarrow> refresh h t x = h x"
proof (induction t arbitrary: h)
  case (VNode a ts)
  let ?h1 = "case h a of None \<Rightarrow> h | Some v \<Rightarrow> h(a \<mapsto> ownCostAndDepth h v)"
  from VNode.prems have x: "x \<noteq> a" "x \<notin> set (concat (map vaddrs ts))" by simp_all
  have "fold (\<lambda>t g. refresh g t) ts ?h1 x = ?h1 x"
    by (rule fold_refresh_frame_step[OF _ x(2)]) (rule VNode.IH)
  also from x(1) have "?h1 x = h x" by (simp split: option.splits)
  finally show ?case by simp
qed

lemma fold_refresh_frame:
  fixes g :: "'c heap"
  shows "x \<notin> set (concat (map vaddrs ts)) \<Longrightarrow> fold (\<lambda>t g. refresh g t) ts g x = g x"
  by (rule fold_refresh_frame_step) (rule refresh_frame)

lemma refresh_root:
  assumes "distinct (vaddrs t)" and "h (vroot t) = Some v"
  shows "refresh h t (vroot t) = Some (ownCostAndDepth h v)"
proof (cases t)
  case (VNode a ts)
  with assms have a: "a \<notin> set (concat (map vaddrs ts))" "h a = Some v" by simp_all
  from fold_refresh_frame[OF a(1), of "h(a \<mapsto> ownCostAndDepth h v)"] a(2) VNode
  show ?thesis by simp
qed

lemma subtreeAt_parent:
  "subtreeAt h t \<Longrightarrow> w \<in> set (vaddrs t) \<Longrightarrow> w \<noteq> vroot t \<Longrightarrow>
     \<exists>c q. h w = Some c \<and> parentSPtr_m c = Some q \<and> q \<in> set (vaddrs t) \<and> \<not> isRoot_m c"
proof (induction t)
  case (VNode a ts)
  from VNode.prems(2,3) obtain t where t: "t \<in> set ts" "w \<in> set (vaddrs t)" by auto
  from subtreeAt_children[OF VNode.prems(1)] t(1) obtain c where c: "subtreeAt h t"
      "h (vroot t) = Some c" "parentSPtr_m c = Some a" "\<not> isRoot_m c" by auto
  show ?case
  proof (cases "w = vroot t")
    case True
    with c show ?thesis by simp
  next
    case False
    from VNode.IH[OF t(1) c(1) t(2) False] t(1) show ?thesis by auto
  qed
qed

lemma costInv_cong:
  assumes "g' w = g w"
    and "\<And>c q. g w = Some c \<Longrightarrow> parentSPtr_m c = Some q \<Longrightarrow> g' q = g q"
  shows "costInv g' w = costInv g w"
  using assms by (auto simp: costInv_def split: option.splits)


lemma costInv_child:
  assumes "g w = Some (ownCostAndDepth g0 c)" and "parentSPtr_m c = Some a" and "\<not> isRoot_m c"
    and "g0 a = Some av" and "g a = Some av"
  shows "costInv g w"
  using assms by (simp add: costInv_def ownCostAndDepth_def)

lemma fold_refresh_costInv:
  fixes g :: "'c heap"
  assumes "\<And>t (g::'c heap) w. t \<in> set ts \<Longrightarrow> subtreeAt g t \<Longrightarrow> distinct (vaddrs t) \<Longrightarrow>
             w \<in> set (vaddrs t) \<Longrightarrow> w \<noteq> vroot t \<Longrightarrow> costInv (refresh g t) w"
    and "\<forall>t \<in> set ts. subtreeAt g t \<and>
           (\<exists>c. g (vroot t) = Some c \<and> parentSPtr_m c = Some a \<and> \<not> isRoot_m c)"
    and "g a = Some av"
    and "distinct (concat (map vaddrs ts))"
    and "a \<notin> set (concat (map vaddrs ts))"
  shows "\<forall>w \<in> set (concat (map vaddrs ts)). costInv (fold (\<lambda>t g. refresh g t) ts g) w"
  using assms
proof (induction ts arbitrary: g)
  case Nil
  show ?case by simp
next
  case (Cons t rest)
  let ?g1 = "refresh g t"
  let ?g' = "fold (\<lambda>t g. refresh g t) rest ?g1"
  from Cons.prems(2) obtain c where st: "subtreeAt g t" and c: "g (vroot t) = Some c"
      "parentSPtr_m c = Some a" "\<not> isRoot_m c" by auto
  from Cons.prems(4) have d: "distinct (vaddrs t)" "distinct (concat (map vaddrs rest))"
      "set (vaddrs t) \<inter> set (concat (map vaddrs rest)) = {}" by simp_all
  from Cons.prems(5) have na: "a \<notin> set (vaddrs t)" "a \<notin> set (concat (map vaddrs rest))"
    by simp_all
  have ss: "sameShape g ?g1" by (rule refresh_sameShape)
  have a1: "?g1 a = Some av" using refresh_frame[OF na(1), of g] Cons.prems(3) by simp
  have r: "\<forall>t \<in> set rest. subtreeAt ?g1 t \<and>
           (\<exists>c. ?g1 (vroot t) = Some c \<and> parentSPtr_m c = Some a \<and> \<not> isRoot_m c)"
    by (rule children_sameShape[OF ss]) (use Cons.prems(2) in simp)
  have rest: "\<forall>w \<in> set (concat (map vaddrs rest)). costInv ?g' w"
    by (rule Cons.IH[OF _ r a1 d(2) na(2)]) (rule Cons.prems(1), simp_all)
  have st1: "subtreeAt ?g1 t" using subtreeAt_sameShape[OF ss, of t] st by simp
  have here: "costInv ?g' w" if w: "w \<in> set (vaddrs t)" for w
  proof -
    from w d(3) have wr: "w \<notin> set (concat (map vaddrs rest))" by blast
    have c1: "costInv ?g1 w"
    proof (cases "w = vroot t")
      case True
      from refresh_root[where h = g, OF d(1) c(1)] True have "?g1 w = Some (ownCostAndDepth g c)" by simp
      then show ?thesis using c(2,3) Cons.prems(3) a1 by (rule costInv_child)
    next
      case False
      show ?thesis by (rule Cons.prems(1)[OF _ st d(1) w False]) simp
    qed
    have "costInv ?g' w = costInv ?g1 w"
    proof (rule costInv_cong)
      show "?g' w = ?g1 w" by (rule fold_refresh_frame[OF wr])
    next
      fix c' q
      assume cq: "?g1 w = Some c'" "parentSPtr_m c' = Some q"
      have "q \<notin> set (concat (map vaddrs rest))"
      proof (cases "w = vroot t")
        case True
        from sameShape_Some[OF ss c(1)] obtain c'' where "?g1 (vroot t) = Some c''"
            "sameFields c c''" by blast
        with cq True c(2) sameFields_fields(3)[of c c''] have "q = a" by simp
        with na(2) show ?thesis by simp
      next
        case False
        from subtreeAt_parent[OF st1 w False] cq have "q \<in> set (vaddrs t)" by auto
        with d(3) show ?thesis by blast
      qed
      then show "?g' q = ?g1 q" by (rule fold_refresh_frame)
    qed
    with c1 show ?thesis by simp
  qed
  show ?case
  proof
    fix w assume "w \<in> set (concat (map vaddrs (t # rest)))"
    then consider "w \<in> set (vaddrs t)" | "w \<in> set (concat (map vaddrs rest))" by auto
    then show "costInv (fold (\<lambda>t g. refresh g t) (t # rest) g) w"
    proof cases
      case 1
      from here[OF 1] show ?thesis by simp
    next
      case 2
      with rest have "costInv ?g' w" by blast
      then show ?thesis by simp
    qed
  qed
qed

lemma refresh_costInv_below:
  fixes h :: "'c heap"
  shows "subtreeAt h t \<Longrightarrow> distinct (vaddrs t) \<Longrightarrow> w \<in> set (vaddrs t) \<Longrightarrow> w \<noteq> vroot t \<Longrightarrow>
         costInv (refresh h t) w"
proof (induction t arbitrary: h w)
  case (VNode a ts)
  from VNode.prems(1) obtain v where v: "h a = Some v" by (auto split: option.splits)
  let ?h1 = "h(a \<mapsto> ownCostAndDepth h v)"
  have ss: "sameShape h ?h1"
    using v sameFields_ownCostAndDepth[of v h] by (rule sameShape_upd)
  have ch: "\<forall>t \<in> set ts. subtreeAt ?h1 t \<and>
           (\<exists>c. ?h1 (vroot t) = Some c \<and> parentSPtr_m c = Some a \<and> \<not> isRoot_m c)"
    by (rule children_sameShape[OF ss subtreeAt_children[OF VNode.prems(1)]])
  from VNode.prems(2) have d: "distinct (concat (map vaddrs ts))"
      "a \<notin> set (concat (map vaddrs ts))" by simp_all
  have a1: "?h1 a = Some (ownCostAndDepth h v)" by simp
  have "\<forall>w \<in> set (concat (map vaddrs ts)). costInv (fold (\<lambda>t g. refresh g t) ts ?h1) w"
    by (rule fold_refresh_costInv[OF _ ch a1 d]) (rule VNode.IH)
  moreover from VNode.prems(3,4) have "w \<in> set (concat (map vaddrs ts))" by simp
  ultimately have "costInv (fold (\<lambda>t g. refresh g t) ts ?h1) w" by blast
  with v show ?case by simp
qed

lemma refresh_costInv_root:
  assumes "distinct (vaddrs t)" and "h (vroot t) = Some v"
    and "\<And>p. parentSPtr_m v = Some p \<Longrightarrow> p \<notin> set (vaddrs t)"
  shows "costInv (refresh h t) (vroot t)"
proof -
  have r: "refresh h t (vroot t) = Some (ownCostAndDepth h v)"
    by (rule refresh_root[where h = h, OF assms(1,2)])
  show ?thesis
  proof (cases "parentSPtr_m v")
    case None
    with r show ?thesis by (simp add: costInv_def ownCostAndDepth_def)
  next
    case (Some p)
    from assms(3)[OF Some] have "refresh h t p = h p" by (rule refresh_frame)
    with r Some show ?thesis
      by (auto simp: costInv_def ownCostAndDepth_def split: option.splits)
  qed
qed

lemma updateCostAndDepth_cascade:
  fixes h :: "'c heap"
  assumes "subtreeAt h t" and "distinct (vaddrs t)" and "h (vroot t) = Some v"
    and "ownOk dbg h v" and "\<And>p. parentSPtr_m v = Some p \<Longrightarrow> p \<notin> set (vaddrs t)"
    and "vheight t \<le> n"
  shows "updateCostAndDepth dbg n (vroot t) True h = Some (Inr (), refresh h t)"
    and "\<forall>w \<in> set (vaddrs t). costInv (refresh h t) w"
    and "refresh h t (vroot t) = Some (ownCostAndDepth h v)"
proof -
  show "updateCostAndDepth dbg n (vroot t) True h = Some (Inr (), refresh h t)"
    by (rule updateCostAndDepth_refresh[where h = h, OF assms(1,3,4,6)])
  show "refresh h t (vroot t) = Some (ownCostAndDepth h v)"
    by (rule refresh_root[where h = h, OF assms(2,3)])
  show "\<forall>w \<in> set (vaddrs t). costInv (refresh h t) w"
  proof
    fix w assume w: "w \<in> set (vaddrs t)"
    show "costInv (refresh h t) w"
    proof (cases "w = vroot t")
      case True
      with refresh_costInv_root[where h = h, OF assms(2,3,5)] show ?thesis by simp
    next
      case False
      show ?thesis by (rule refresh_costInv_below[OF assms(1,2) w False])
    qed
  qed
qed

section \<open>The cost-cascade invariant\<close>

lemma vroot_in_vaddrs: "vroot t \<in> set (vaddrs t)"
  by (cases t) simp

lemma subtreeAt_agree_imp:
  fixes h :: "'c heap"
  shows "(\<And>x. x \<in> set (vaddrs t) \<Longrightarrow> h' x = h x) \<Longrightarrow> subtreeAt h t \<Longrightarrow> subtreeAt h' t"
proof (induction t)
  case (VNode a ts)
  from VNode.prems(2) obtain v where v: "h a = Some v" "\<not> isPruned_m v"
      "childWPtrs_m v = map vroot ts"
    by (auto split: option.splits)
  from VNode.prems(1)[of a] v(1) have v': "h' a = Some v" by simp
  have ch: "(case h' (vroot t) of None \<Rightarrow> False
             | Some c \<Rightarrow> parentSPtr_m c = Some a \<and> \<not> isRoot_m c) \<and> subtreeAt h' t"
    if t: "t \<in> set ts" for t
  proof -
    from subtreeAt_children[OF VNode.prems(2)] t obtain c where c: "subtreeAt h t"
        "h (vroot t) = Some c" "parentSPtr_m c = Some a" "\<not> isRoot_m c" by auto
    have sub: "\<And>x. x \<in> set (vaddrs t) \<Longrightarrow> x \<in> set (vaddrs (VNode a ts))" using t by auto
    from VNode.prems(1)[OF sub[OF vroot_in_vaddrs]] c(2) have c': "h' (vroot t) = Some c" by simp
    have "subtreeAt h' t"
      by (rule VNode.IH[OF t _ c(1)]) (rule VNode.prems(1)[OF sub])
    with c' c(3,4) show ?thesis by simp
  qed
  from v' v(2,3) ch show ?case by simp
qed

lemma subtreeAt_upd_other:
  fixes h :: "'c heap"
  assumes "y \<notin> set (vaddrs t)"
  shows "subtreeAt (h(y \<mapsto> z)) t = subtreeAt h t"
proof
  assume "subtreeAt (h(y \<mapsto> z)) t"
  then show "subtreeAt h t"
    by (rule subtreeAt_agree_imp[rotated]) (use assms in auto)
next
  assume "subtreeAt h t"
  then show "subtreeAt (h(y \<mapsto> z)) t"
    by (rule subtreeAt_agree_imp[rotated]) (use assms in auto)
qed

lemma subtreeAt_upd_root:
  fixes h :: "'c heap"
  assumes "subtreeAt h t" and "distinct (vaddrs t)" and "h (vroot t) = Some v"
    and "isPruned_m v' = isPruned_m v" and "childWPtrs_m v' = childWPtrs_m v"
  shows "subtreeAt (h(vroot t \<mapsto> v')) t"
proof (cases t)
  case (VNode a ts)
  have ch: "(case (h(a \<mapsto> v')) (vroot t') of None \<Rightarrow> False
             | Some c \<Rightarrow> parentSPtr_m c = Some a \<and> \<not> isRoot_m c) \<and> subtreeAt (h(a \<mapsto> v')) t'"
    if t': "t' \<in> set ts" for t'
  proof -
    from assms(2) VNode t' have na: "a \<notin> set (vaddrs t')" by auto
    with vroot_in_vaddrs[of t'] have ne: "vroot t' \<noteq> a" by auto
    from subtreeAt_children[OF assms(1)[unfolded VNode]] t' obtain c where c: "subtreeAt h t'"
        "h (vroot t') = Some c" "parentSPtr_m c = Some a" "\<not> isRoot_m c" by auto
    from c ne subtreeAt_upd_other[OF na, of h v'] show ?thesis by simp
  qed
  from assms(1,3) VNode have "\<not> isPruned_m v" "childWPtrs_m v = map vroot ts"
    by (auto split: option.splits)
  with assms(4,5) ch VNode show ?thesis by simp
qed

lemma subtreeAt_root:
  "subtreeAt h t \<Longrightarrow> h (vroot t) = Some v \<Longrightarrow>
     \<not> isPruned_m v \<and> childWPtrs_m v = map vroot (vsubs t)"
  by (cases t) (auto split: option.splits)

lemma addParent_cascade:
  fixes h :: "'c heap"
  assumes "subtreeAt h t" and "distinct (vaddrs t)" and "h (vroot t) = Some v"
    and "vheight t \<le> n" and "\<not> isRoot_m v" and "parentSPtr_m v = None"
    and "h p = Some pv" and "\<not> isPruned_m pv" and "isRoot_m pv \<or> parentSPtr_m pv \<noteq> None"
    and "p \<notin> set (vaddrs t)"
  shows "\<exists>h'. addParent dbg n (vroot t) (Some p) e True h = Some (Inr (), h') \<and>
           (\<forall>w \<in> set (vaddrs t). costInv h' w) \<and>
           h' p = Some pv \<and>
           h' (vroot t) = Some (v\<lparr>parentSPtr_m := Some p, edgeCost_m := e,
              cost_m := combineCosts (costHelpPtr_m v) (cost_m pv) e,
              depth_m := depth_m pv + 1\<rparr>)"
proof -
  let ?x = "vroot t"
  let ?v0 = "v\<lparr>parentSPtr_m := Some p, edgeCost_m := e\<rparr>"
  let ?h0 = "h(?x \<mapsto> ?v0)"
  from subtreeAt_root[OF assms(1,3)] have np: "\<not> isPruned_m v" by simp
  from assms(10) vroot_in_vaddrs[of t] have px: "p \<noteq> ?x" by auto
  have op: "addParent dbg n ?x (Some p) e True h = updateCostAndDepth dbg n ?x True ?h0"
    using assms(3,5,6) np
    by (simp add: addParent_def ASSERT_NOT_PRUNED_def assertNotPruned_def hasParent_def
        isRoot_def)
  have st: "subtreeAt ?h0 t"
    by (rule subtreeAt_upd_root[OF assms(1,2,3)]) simp_all
  have x0: "?h0 (vroot t) = Some ?v0" by simp
  have p0: "?h0 p = Some pv" using px assms(7) by simp
  have ok: "ownOk dbg ?h0 ?v0" using p0 assms(5,8,9) by (auto simp: ownOk_def)
  have np0: "\<And>q. parentSPtr_m ?v0 = Some q \<Longrightarrow> q \<notin> set (vaddrs t)"
    using assms(10) by simp
  note c = updateCostAndDepth_cascade[where h = ?h0, OF st assms(2) x0 ok np0 assms(4)]
  have "refresh ?h0 t p = ?h0 p" using assms(10) by (rule refresh_frame)
  with p0 have 1: "refresh ?h0 t p = Some pv" by simp
  have "ownCostAndDepth ?h0 ?v0 = v\<lparr>parentSPtr_m := Some p, edgeCost_m := e,
              cost_m := combineCosts (costHelpPtr_m v) (cost_m pv) e,
              depth_m := depth_m pv + 1\<rparr>"
    using assms(5) p0 by (simp add: ownCostAndDepth_def)
  with c(3) have 2: "refresh ?h0 t (vroot t) = Some (v\<lparr>parentSPtr_m := Some p, edgeCost_m := e,
              cost_m := combineCosts (costHelpPtr_m v) (cost_m pv) e,
              depth_m := depth_m pv + 1\<rparr>)" by simp
  from op c(1) c(2) 1 2 show ?thesis by simp
qed

lemma removeParent_cascade:
  fixes h :: "'c heap"
  assumes "subtreeAt h t" and "distinct (vaddrs t)" and "h (vroot t) = Some v"
    and "vheight t \<le> n" and "\<not> isRoot_m v" and "parentSPtr_m v \<noteq> None"
    and "\<not> (dbg \<and> vsubs t \<noteq> [])"
  shows "\<exists>h'. removeParent dbg n (vroot t) True h = Some (Inr (), h') \<and>
           (\<forall>w \<in> set (vaddrs t). costInv h' w) \<and>
           sameShape (h(vroot t \<mapsto> v\<lparr>parentSPtr_m := None\<rparr>)) h' \<and>
           h' (vroot t) = Some (v\<lparr>parentSPtr_m := None,
              cost_m := infiniteCost (costHelpPtr_m v), depth_m := 0\<rparr>)"
proof -
  let ?x = "vroot t"
  let ?v0 = "v\<lparr>parentSPtr_m := None\<rparr>"
  let ?h0 = "h(?x \<mapsto> ?v0)"
  from subtreeAt_root[OF assms(1,3)]
  have np: "\<not> isPruned_m v" and ch: "childWPtrs_m v = map vroot (vsubs t)" by simp_all
  have op: "removeParent dbg n ?x True h = updateCostAndDepth dbg n ?x True ?h0"
    using assms(3,5,6) np
    by (simp add: removeParent_def ASSERT_NOT_PRUNED_def assertNotPruned_def hasParent_def
        isRoot_def)
  have st: "subtreeAt ?h0 t"
    by (rule subtreeAt_upd_root[OF assms(1,2,3)]) simp_all
  have x0: "?h0 (vroot t) = Some ?v0" by simp
  have ok: "ownOk dbg ?h0 ?v0" using assms(5,7) ch by (auto simp: ownOk_def)
  have np0: "\<And>q. parentSPtr_m ?v0 = Some q \<Longrightarrow> q \<notin> set (vaddrs t)" by simp
  note c = updateCostAndDepth_cascade[where h = ?h0, OF st assms(2) x0 ok np0 assms(4)]
  have "ownCostAndDepth ?h0 ?v0 = v\<lparr>parentSPtr_m := None,
              cost_m := infiniteCost (costHelpPtr_m v), depth_m := 0\<rparr>"
    using assms(5) by (simp add: ownCostAndDepth_def)
  with c(3) have 2: "refresh ?h0 t (vroot t) = Some (v\<lparr>parentSPtr_m := None,
              cost_m := infiniteCost (costHelpPtr_m v), depth_m := 0\<rparr>)" by simp
  have 3: "sameShape ?h0 (refresh ?h0 t)" by (rule refresh_sameShape)
  from op c(1) c(2) 2 3 show ?thesis by simp
qed

lemma ownOk_upd_children:
  assumes "h y = Some yv" and "ownOk dbg h v"
  shows "ownOk dbg (h(y \<mapsto> yv\<lparr>childWPtrs_m := cs\<rparr>)) v"
  using assms by (auto simp: ownOk_def split: option.splits)

lemma addChild_cascade:
  fixes h :: "'c heap"
  assumes "subtreeAt h t" and "distinct (vaddrs t)" and "h (vroot t) = Some v"
    and "vheight t \<le> n" and "ownOk dbg h v"
    and "\<And>p. parentSPtr_m v = Some p \<Longrightarrow> p \<notin> set (vaddrs t)"
    and "h y = Some yv" and "\<not> (dbg \<and> isPruned_m yv)" and "y \<notin> set (vaddrs t)"
  shows "\<exists>h'. addChild dbg n y (vroot t) True h = Some (Inr (), h') \<and>
           (\<forall>w \<in> set (vaddrs t). costInv h' w)"
proof -
  let ?x = "vroot t"
  let ?h0 = "h(y \<mapsto> yv\<lparr>childWPtrs_m := childWPtrs_m yv @ [?x]\<rparr>)"
  from assms(9) vroot_in_vaddrs[of t] have yx: "y \<noteq> ?x" by auto
  have op: "addChild dbg n y ?x True h = updateCostAndDepth dbg n ?x True ?h0"
    using assms(7,8) by (auto simp: addChild_def ASSERT_NOT_PRUNED_def assertNotPruned_def)
  have st: "subtreeAt ?h0 t" using assms(1,9) by (simp add: subtreeAt_upd_other)
  have x0: "?h0 (vroot t) = Some v" using yx assms(3) by simp
  have ok: "ownOk dbg ?h0 v" by (rule ownOk_upd_children[OF assms(7,5)])
  note c = updateCostAndDepth_cascade[where h = ?h0, OF st assms(2) x0 ok assms(6,4)]
  from op c(1) c(2) show ?thesis by simp
qed

lemma removeChild_cascade:
  fixes h :: "'c heap"
  assumes "subtreeAt h t" and "distinct (vaddrs t)" and "h (vroot t) = Some v"
    and "vheight t \<le> n" and "ownOk dbg h v"
    and "\<And>p. parentSPtr_m v = Some p \<Longrightarrow> p \<notin> set (vaddrs t)"
    and "h y = Some yv" and "\<not> (dbg \<and> isPruned_m yv)" and "y \<notin> set (vaddrs t)"
    and "findChild dbg h (vroot t) (childWPtrs_m yv) = Inr found"
    and "\<not> (dbg \<and> found = None)"
  shows "\<exists>h'. removeChild dbg n y (vroot t) True h = Some (Inr (), h') \<and>
           (\<forall>w \<in> set (vaddrs t). costInv h' w)"
proof -
  let ?x = "vroot t"
  let ?h0 = "case found of None \<Rightarrow> h
             | Some i \<Rightarrow> h(y \<mapsto> yv\<lparr>childWPtrs_m := swapAndPop (childWPtrs_m yv) i\<rparr>)"
  from assms(9) vroot_in_vaddrs[of t] have yx: "y \<noteq> ?x" by auto
  have st: "subtreeAt ?h0 t" using assms(1,9) by (simp add: subtreeAt_upd_other split: option.splits)
  have x0: "?h0 (vroot t) = Some v" using yx assms(3) by (simp split: option.splits)
  have ok: "ownOk dbg ?h0 v"
    using assms(5) ownOk_upd_children[OF assms(7,5)] by (simp split: option.splits)
  note c = updateCostAndDepth_cascade[where h = ?h0, OF st assms(2) x0 ok assms(6,4)]
  from assms(8) have "ASSERT_NOT_PRUNED dbg yv = Inr ()"
    by (auto simp: ASSERT_NOT_PRUNED_def assertNotPruned_def)
  with assms(7,10,11) c(1)
  have "removeChild dbg n y ?x True h = Some (Inr (), refresh ?h0 t)"
    by (simp add: removeChild_def)
  with c(2) show ?thesis by simp
qed

lemma cascade_infinite:
  fixes h :: "'c heap"
  assumes abs: "\<And>e. combineCosts ch (infiniteCost ch) e = infiniteCost ch"
  shows "subtreeAt h t \<Longrightarrow> \<forall>w \<in> set (vaddrs t). costInv h w \<Longrightarrow>
         h (vroot t) = Some rv \<Longrightarrow> cost_m rv = infiniteCost ch \<Longrightarrow>
         \<forall>w \<in> set (vaddrs t). \<forall>wv. h w = Some wv \<longrightarrow> costHelpPtr_m wv = ch \<Longrightarrow>
         \<forall>w \<in> set (vaddrs t). \<exists>wv. h w = Some wv \<and> cost_m wv = infiniteCost ch"
proof (induction t arbitrary: rv)
  case (VNode a ts)
  show ?case
  proof
    fix w assume w: "w \<in> set (vaddrs (VNode a ts))"
    show "\<exists>wv. h w = Some wv \<and> cost_m wv = infiniteCost ch"
    proof (cases "w = a")
      case True
      with VNode.prems(3,4) show ?thesis by simp
    next
      case False
      with w obtain t where t: "t \<in> set ts" "w \<in> set (vaddrs t)" by auto
      from subtreeAt_children[OF VNode.prems(1)] t(1) obtain c where c: "subtreeAt h t"
          "h (vroot t) = Some c" "parentSPtr_m c = Some a" "\<not> isRoot_m c" by auto
      have sub: "set (vaddrs t) \<subseteq> set (vaddrs (VNode a ts))" using t(1) by auto
      from sub vroot_in_vaddrs[of t] VNode.prems(2) have "costInv h (vroot t)" by blast
      with c VNode.prems(3) have cc: "cost_m c = combineCosts (costHelpPtr_m c) (cost_m rv) (edgeCost_m c)"
        by (simp add: costInv_def)
      from sub vroot_in_vaddrs[of t] VNode.prems(5) c(2) have "costHelpPtr_m c = ch" by blast
      with cc VNode.prems(4) abs have ci: "cost_m c = infiniteCost ch" by simp
      have i1: "\<forall>w \<in> set (vaddrs t). costInv h w" using sub VNode.prems(2) by blast
      have i2: "\<forall>w \<in> set (vaddrs t). \<forall>wv. h w = Some wv \<longrightarrow> costHelpPtr_m wv = ch"
        using sub VNode.prems(5) by blast
      have "\<forall>w \<in> set (vaddrs t). \<exists>wv. h w = Some wv \<and> cost_m wv = infiniteCost ch"
        by (rule VNode.IH[OF t(1) c(1) i1 c(2) ci i2])
      with t(2) show ?thesis by blast
    qed
  qed
qed

text \<open>
  Claim C1, as stated, fails where \<^verbatim>\<open>BITSTAR_DEBUG\<close> is defined: \<^verbatim>\<open>removeParent\<close> with
  cascade on vertex 1, which has children, throws once vertex 1 is reset to the infinite
  cost. Vertex 2 still has parent 1 and keeps cost 7 and depth 2, which are not the
  combination of the parent's cost with its edge cost 5 and the parent's depth plus one.
\<close>

theorem cost_cascade_debug_counterexample:
  "removeParent True (Suc (Suc 0)) 1 True
     [0 \<mapsto> exVertex 0 True False None \<infinity> 0 0 [1],
      1 \<mapsto> exVertex 1 False False (Some 0) 2 2 1 [2, 3],
      2 \<mapsto> exVertex 2 False False (Some 1) 5 7 2 [],
      3 \<mapsto> exVertex 3 False False (Some 1) 1 3 2 []] =
   Some (Inl CascadeFromDisconnected,
     [0 \<mapsto> exVertex 0 True False None \<infinity> 0 0 [1],
      1 \<mapsto> exVertex 1 False False None 2 \<infinity> 0 [2, 3],
      2 \<mapsto> exVertex 2 False False (Some 1) 5 7 2 [],
      3 \<mapsto> exVertex 3 False False (Some 1) 1 3 2 []]) \<and>
   \<not> costInv
     [0 \<mapsto> exVertex 0 True False None \<infinity> 0 0 [1],
      1 \<mapsto> exVertex 1 False False None 2 \<infinity> 0 [2, 3],
      2 \<mapsto> exVertex 2 False False (Some 1) 5 7 2 [],
      3 \<mapsto> exVertex 3 False False (Some 1) 1 3 2 []] 2"
  by (simp add: removeParent_def ASSERT_NOT_PRUNED_def assertNotPruned_def
      hasParent_def isRoot_def exVertex_def updateCostAndDepth_Suc updateOwn_def natCosts_def
      costInv_def fun_upd_twist)

text \<open>
  Claim C1, amended. Let the store hold a tree \<open>t\<close> of distinct unpruned vertices below a
  vertex (its root), linked by child lists and matching parent pointers, and let the
  recursion bound be at least the height of \<open>t\<close>. Then each operation that recomputes costs
  from that vertex with cascade, called where it raises no exception, returns normally and
  leaves the cost-cascade invariant at every vertex of \<open>t\<close>: a vertex that is not root and
  has a parent has the parent's cost combined with its own edge cost, and the parent's
  depth plus one (in \<^verbatim>\<open>unsigned int\<close> arithmetic). The operations are
  \<^verbatim>\<open>updateCostAndDepth(true)\<close> on the vertex, \<^verbatim>\<open>addParent\<close> of a connected parent \<open>p\<close> outside
  \<open>t\<close> (after which the vertex has cost \<open>combine (cost p) e\<close> and depth \<open>depth p + 1\<close>),
  \<^verbatim>\<open>removeParent\<close> where \<^verbatim>\<open>BITSTAR_DEBUG\<close> is not defined or the vertex has no children, and
  \<^verbatim>\<open>addChild\<close> and \<^verbatim>\<open>removeChild\<close> of the vertex at a vertex \<open>y\<close> outside \<open>t\<close>.
\<close>

theorem cost_cascade_invariant:
  fixes h :: "'c heap"
  assumes "subtreeAt h t" and "distinct (vaddrs t)" and "h (vroot t) = Some v"
    and "vheight t \<le> n"
  shows
    "(ownOk dbg h v \<and> (\<forall>q. parentSPtr_m v = Some q \<longrightarrow> q \<notin> set (vaddrs t)) \<longrightarrow>
        (\<exists>h'. updateCostAndDepth dbg n (vroot t) True h = Some (Inr (), h') \<and>
              (\<forall>w \<in> set (vaddrs t). costInv h' w))) \<and>
     (\<not> isRoot_m v \<and> parentSPtr_m v = None \<and> h p = Some pv \<and> \<not> isPruned_m pv \<and>
      (isRoot_m pv \<or> parentSPtr_m pv \<noteq> None) \<and> p \<notin> set (vaddrs t) \<longrightarrow>
        (\<exists>h'. addParent dbg n (vroot t) (Some p) e True h = Some (Inr (), h') \<and>
              (\<forall>w \<in> set (vaddrs t). costInv h' w) \<and>
              h' p = Some pv \<and>
              h' (vroot t) = Some (v\<lparr>parentSPtr_m := Some p, edgeCost_m := e,
                 cost_m := combineCosts (costHelpPtr_m v) (cost_m pv) e,
                 depth_m := depth_m pv + 1\<rparr>))) \<and>
     (\<not> isRoot_m v \<and> parentSPtr_m v \<noteq> None \<and> \<not> (dbg \<and> vsubs t \<noteq> []) \<longrightarrow>
        (\<exists>h'. removeParent dbg n (vroot t) True h = Some (Inr (), h') \<and>
              (\<forall>w \<in> set (vaddrs t). costInv h' w))) \<and>
     (ownOk dbg h v \<and> (\<forall>q. parentSPtr_m v = Some q \<longrightarrow> q \<notin> set (vaddrs t)) \<and>
      h y = Some yv \<and> \<not> (dbg \<and> isPruned_m yv) \<and> y \<notin> set (vaddrs t) \<longrightarrow>
        (\<exists>h'. addChild dbg n y (vroot t) True h = Some (Inr (), h') \<and>
              (\<forall>w \<in> set (vaddrs t). costInv h' w))) \<and>
     (ownOk dbg h v \<and> (\<forall>q. parentSPtr_m v = Some q \<longrightarrow> q \<notin> set (vaddrs t)) \<and>
      h y = Some yv \<and> \<not> (dbg \<and> isPruned_m yv) \<and> y \<notin> set (vaddrs t) \<and>
      findChild dbg h (vroot t) (childWPtrs_m yv) = Inr found \<and> \<not> (dbg \<and> found = None) \<longrightarrow>
        (\<exists>h'. removeChild dbg n y (vroot t) True h = Some (Inr (), h') \<and>
              (\<forall>w \<in> set (vaddrs t). costInv h' w)))"
proof (intro conjI impI)
  assume a: "ownOk dbg h v \<and> (\<forall>q. parentSPtr_m v = Some q \<longrightarrow> q \<notin> set (vaddrs t))"
  then have q: "\<And>q. parentSPtr_m v = Some q \<Longrightarrow> q \<notin> set (vaddrs t)" by blast
  from a have ok: "ownOk dbg h v" by blast
  note c = updateCostAndDepth_cascade[where h = h, OF assms(1,2,3) ok q assms(4)]
  from c(1) c(2)
  show "\<exists>h'. updateCostAndDepth dbg n (vroot t) True h = Some (Inr (), h') \<and>
              (\<forall>w \<in> set (vaddrs t). costInv h' w)" by blast
next
  assume a: "\<not> isRoot_m v \<and> parentSPtr_m v = None \<and> h p = Some pv \<and> \<not> isPruned_m pv \<and>
      (isRoot_m pv \<or> parentSPtr_m pv \<noteq> None) \<and> p \<notin> set (vaddrs t)"
  then have 1: "\<not> isRoot_m v" and 2: "parentSPtr_m v = None" and 3: "h p = Some pv"
    and 4: "\<not> isPruned_m pv" and 5: "isRoot_m pv \<or> parentSPtr_m pv \<noteq> None"
    and 6: "p \<notin> set (vaddrs t)" by blast+
  show "\<exists>h'. addParent dbg n (vroot t) (Some p) e True h = Some (Inr (), h') \<and>
              (\<forall>w \<in> set (vaddrs t). costInv h' w) \<and>
              h' p = Some pv \<and>
              h' (vroot t) = Some (v\<lparr>parentSPtr_m := Some p, edgeCost_m := e,
                 cost_m := combineCosts (costHelpPtr_m v) (cost_m pv) e,
                 depth_m := depth_m pv + 1\<rparr>)"
    by (rule addParent_cascade[where h = h, OF assms(1,2,3,4) 1 2 3 4 5 6])
next
  assume a: "\<not> isRoot_m v \<and> parentSPtr_m v \<noteq> None \<and> \<not> (dbg \<and> vsubs t \<noteq> [])"
  then have 1: "\<not> isRoot_m v" and 2: "parentSPtr_m v \<noteq> None"
    and 3: "\<not> (dbg \<and> vsubs t \<noteq> [])" by blast+
  from removeParent_cascade[where h = h, OF assms(1,2,3,4) 1 2 3]
  show "\<exists>h'. removeParent dbg n (vroot t) True h = Some (Inr (), h') \<and>
              (\<forall>w \<in> set (vaddrs t). costInv h' w)" by blast
next
  assume a: "ownOk dbg h v \<and> (\<forall>q. parentSPtr_m v = Some q \<longrightarrow> q \<notin> set (vaddrs t)) \<and>
      h y = Some yv \<and> \<not> (dbg \<and> isPruned_m yv) \<and> y \<notin> set (vaddrs t)"
  then have q: "\<And>q. parentSPtr_m v = Some q \<Longrightarrow> q \<notin> set (vaddrs t)" by blast
  from a have ok: "ownOk dbg h v" and 1: "h y = Some yv" and 2: "\<not> (dbg \<and> isPruned_m yv)"
    and 3: "y \<notin> set (vaddrs t)" by blast+
  show "\<exists>h'. addChild dbg n y (vroot t) True h = Some (Inr (), h') \<and>
              (\<forall>w \<in> set (vaddrs t). costInv h' w)"
    by (rule addChild_cascade[where h = h, OF assms(1,2,3,4) ok q 1 2 3])
next
  assume a: "ownOk dbg h v \<and> (\<forall>q. parentSPtr_m v = Some q \<longrightarrow> q \<notin> set (vaddrs t)) \<and>
      h y = Some yv \<and> \<not> (dbg \<and> isPruned_m yv) \<and> y \<notin> set (vaddrs t) \<and>
      findChild dbg h (vroot t) (childWPtrs_m yv) = Inr found \<and> \<not> (dbg \<and> found = None)"
  then have q: "\<And>q. parentSPtr_m v = Some q \<Longrightarrow> q \<notin> set (vaddrs t)" by blast
  from a have ok: "ownOk dbg h v" and 1: "h y = Some yv" and 2: "\<not> (dbg \<and> isPruned_m yv)"
    and 3: "y \<notin> set (vaddrs t)"
    and 4: "findChild dbg h (vroot t) (childWPtrs_m yv) = Inr found"
    and 5: "\<not> (dbg \<and> found = None)" by blast+
  show "\<exists>h'. removeChild dbg n y (vroot t) True h = Some (Inr (), h') \<and>
              (\<forall>w \<in> set (vaddrs t). costInv h' w)"
    by (rule removeChild_cascade[where h = h, OF assms(1,2,3,4) ok q 1 2 3 4 5])
qed

text \<open>
  The vertex cascade of the specification: a root of cost 0, a vertex with edge cost 3
  and its child with edge cost 4. After \<^verbatim>\<open>addParent\<close> the vertex has cost 3 and the child
  cost 7 and depth 2.
\<close>

theorem cost_cascade_invariant_witness:
  "(\<exists>h'. updateCostAndDepth True 2 1 True
            [0 \<mapsto> exVertex 0 True False None \<infinity> 0 0 [1],
             1 \<mapsto> exVertex 1 False False (Some 0) 3 99 9 [2],
             2 \<mapsto> exVertex 2 False False (Some 1) 4 99 9 []] = Some (Inr (), h') \<and>
         (\<forall>w \<in> set (vaddrs (VNode 1 [VNode 2 []])). costInv h' w)) \<and>
   (\<exists>h'. addParent True 2 1 (Some 0) 3 True
            [0 \<mapsto> exVertex 0 True False None \<infinity> 0 0 [],
             1 \<mapsto> exVertex 1 False False None \<infinity> \<infinity> 0 [2],
             2 \<mapsto> exVertex 2 False False (Some 1) 4 \<infinity> 1 []] = Some (Inr (), h') \<and>
         (\<forall>w \<in> set (vaddrs (VNode 1 [VNode 2 []])). costInv h' w) \<and>
         h' 0 = Some (exVertex 0 True False None \<infinity> 0 0 []) \<and>
         h' 1 = Some (exVertex 1 False False (Some 0) 3 3 1 [2])) \<and>
   addParent True 2 1 (Some 0) 3 True
     [0 \<mapsto> exVertex 0 True False None \<infinity> 0 0 [],
      1 \<mapsto> exVertex 1 False False None \<infinity> \<infinity> 0 [2],
      2 \<mapsto> exVertex 2 False False (Some 1) 4 \<infinity> 1 []] =
   Some (Inr (),
     [0 \<mapsto> exVertex 0 True False None \<infinity> 0 0 [],
      1 \<mapsto> exVertex 1 False False (Some 0) 3 3 1 [2],
      2 \<mapsto> exVertex 2 False False (Some 1) 4 7 2 []]) \<and>
   (\<exists>h'. removeParent False 2 1 True
            [0 \<mapsto> exVertex 0 True False None \<infinity> 0 0 [1],
             1 \<mapsto> exVertex 1 False False (Some 0) 3 99 9 [2],
             2 \<mapsto> exVertex 2 False False (Some 1) 4 99 9 []] = Some (Inr (), h') \<and>
         (\<forall>w \<in> set (vaddrs (VNode 1 [VNode 2 []])). costInv h' w)) \<and>
   (\<exists>h'. addChild True 2 0 1 True
            [0 \<mapsto> exVertex 0 True False None \<infinity> 0 0 [1],
             1 \<mapsto> exVertex 1 False False (Some 0) 3 99 9 [2],
             2 \<mapsto> exVertex 2 False False (Some 1) 4 99 9 []] = Some (Inr (), h') \<and>
         (\<forall>w \<in> set (vaddrs (VNode 1 [VNode 2 []])). costInv h' w)) \<and>
   (\<exists>h'. removeChild True 2 0 1 True
            [0 \<mapsto> exVertex 0 True False None \<infinity> 0 0 [1],
             1 \<mapsto> exVertex 1 False False (Some 0) 3 99 9 [2],
             2 \<mapsto> exVertex 2 False False (Some 1) 4 99 9 []] = Some (Inr (), h') \<and>
         (\<forall>w \<in> set (vaddrs (VNode 1 [VNode 2 []])). costInv h' w))"
proof -
  let ?r = "exVertex 0 True False None \<infinity> 0 0 [1]"
  let ?a = "exVertex 1 False False (Some 0) 3 99 9 [2]"
  let ?h = "[(0::addr) \<mapsto> ?r, 1 \<mapsto> ?a, 2 \<mapsto> exVertex 2 False False (Some 1) 4 99 9 []]"
  let ?r2 = "exVertex 0 True False None \<infinity> 0 0 []"
  let ?a2 = "exVertex 1 False False None \<infinity> \<infinity> 0 [2]"
  let ?h2 = "[(0::addr) \<mapsto> ?r2, 1 \<mapsto> ?a2, 2 \<mapsto> exVertex 2 False False (Some 1) 4 \<infinity> 1 []]"
  let ?t = "VNode 1 [VNode 2 []]"
  have st: "subtreeAt ?h ?t" "subtreeAt ?h2 ?t" by (simp_all add: exVertex_def)
  have d: "distinct (vaddrs ?t)" by simp
  have x: "?h (vroot ?t) = Some ?a" "?h2 (vroot ?t) = Some ?a2" by simp_all
  have ht: "vheight ?t \<le> 2" by simp
  have ok: "ownOk True ?h ?a"
    "\<forall>q. parentSPtr_m ?a = Some q \<longrightarrow> q \<notin> set (vaddrs ?t)"
    by (simp_all add: ownOk_def exVertex_def)
  have y: "?h 0 = Some ?r" "\<not> (True \<and> isPruned_m ?r)" "0 \<notin> set (vaddrs ?t)"
    by (simp_all add: exVertex_def)
  have f: "findChild True ?h (vroot ?t) (childWPtrs_m ?r) = Inr (Some 0)"
    "\<not> (True \<and> Some (0::nat) = None)"
    by (simp_all add: exVertex_def getId_def ASSERT_NOT_PRUNED_def assertNotPruned_def)
  have ap: "\<not> isRoot_m ?a2" "parentSPtr_m ?a2 = None" "?h2 0 = Some ?r2" "\<not> isPruned_m ?r2"
    "isRoot_m ?r2 \<or> parentSPtr_m ?r2 \<noteq> None"
    by (simp_all add: exVertex_def)
  have rp: "\<not> isRoot_m ?a" "parentSPtr_m ?a \<noteq> None" "\<not> (False \<and> vsubs ?t \<noteq> [])"
    by (simp_all add: exVertex_def)
  note i1 = cost_cascade_invariant[where h = ?h and t = ?t and v = ?a and n = 2 and dbg = True
      and y = 0 and yv = ?r and found = "Some 0", OF st(1) d x(1) ht]
  note i2 = cost_cascade_invariant[where h = ?h2 and t = ?t and v = ?a2 and n = 2 and dbg = True
      and p = 0 and pv = ?r2 and e = 3, OF st(2) d x(2) ht]
  note i3 = cost_cascade_invariant[where h = ?h and t = ?t and v = ?a and n = 2 and dbg = False,
      OF st(1) d x(1) ht]
  have w1: "\<exists>h'. updateCostAndDepth True 2 1 True ?h = Some (Inr (), h') \<and>
         (\<forall>w \<in> set (vaddrs ?t). costInv h' w)"
    using i1 ok by simp
  have w2: "\<exists>h'. addParent True 2 1 (Some 0) 3 True ?h2 = Some (Inr (), h') \<and>
         (\<forall>w \<in> set (vaddrs ?t). costInv h' w) \<and>
         h' 0 = Some ?r2 \<and> h' 1 = Some (exVertex 1 False False (Some 0) 3 3 1 [2])"
  proof -
    have e: "?a2\<lparr>parentSPtr_m := Some 0, edgeCost_m := 3,
                 cost_m := combineCosts (costHelpPtr_m ?a2) (cost_m ?r2) 3,
                 depth_m := depth_m ?r2 + 1\<rparr> = exVertex 1 False False (Some 0) 3 3 1 [2]"
      by (simp add: exVertex_def natCosts_def)
    from i2 ap have "\<exists>h'. addParent True 2 (vroot ?t) (Some 0) 3 True ?h2 = Some (Inr (), h') \<and>
         (\<forall>w \<in> set (vaddrs ?t). costInv h' w) \<and>
         h' 0 = Some ?r2 \<and> h' (vroot ?t) = Some (?a2\<lparr>parentSPtr_m := Some 0, edgeCost_m := 3,
                 cost_m := combineCosts (costHelpPtr_m ?a2) (cost_m ?r2) 3,
                 depth_m := depth_m ?r2 + 1\<rparr>)"
      by simp
    then show ?thesis unfolding e by simp
  qed
  have w2': "addParent True 2 1 (Some 0) 3 True ?h2 =
     Some (Inr (),
     [0 \<mapsto> exVertex 0 True False None \<infinity> 0 0 [],
      1 \<mapsto> exVertex 1 False False (Some 0) 3 3 1 [2],
      2 \<mapsto> exVertex 2 False False (Some 1) 4 7 2 []])"
    by (simp add: numeral_2_eq_2 addParent_def ASSERT_NOT_PRUNED_def assertNotPruned_def
        hasParent_def isRoot_def exVertex_def updateCostAndDepth_Suc updateOwn_def natCosts_def
        fun_upd_twist)
  have w3: "\<exists>h'. removeParent False 2 1 True ?h = Some (Inr (), h') \<and>
         (\<forall>w \<in> set (vaddrs ?t). costInv h' w)"
    using i3 rp by simp
  have w4: "\<exists>h'. addChild True 2 0 1 True ?h = Some (Inr (), h') \<and>
         (\<forall>w \<in> set (vaddrs ?t). costInv h' w)"
    using i1 ok y by simp
  have w5: "\<exists>h'. removeChild True 2 0 1 True ?h = Some (Inr (), h') \<and>
         (\<forall>w \<in> set (vaddrs ?t). costInv h' w)"
    using i1 ok y f by simp
  from w1 w2 w2' w3 w4 w5 show ?thesis by blast
qed

section \<open>Adding and removing the same child\<close>

lemma live_sameShape:
  assumes "sameShape h h'" and "\<exists>av. h a = Some av \<and> \<not> (dbg \<and> isPruned_m av)"
  shows "\<exists>av. h' a = Some av \<and> \<not> (dbg \<and> isPruned_m av)"
proof -
  from assms(2) obtain av where av: "h a = Some av" "\<not> (dbg \<and> isPruned_m av)" by blast
  from sameShape_Some[OF assms(1) av(1)] obtain av' where av': "h' a = Some av'"
      "sameFields av av'" by blast
  from sameFields_fields(1)[OF av'(2)] av(2) av'(1) show ?thesis by simp
qed

lemma live_upd:
  assumes "h y = Some yv" and "isPruned_m yv' = isPruned_m yv"
    and "\<exists>av. h a = Some av \<and> \<not> (dbg \<and> isPruned_m av)"
  shows "\<exists>av. (h(y \<mapsto> yv')) a = Some av \<and> \<not> (dbg \<and> isPruned_m av)"
  using assms by (cases "a = y") auto

lemma findChild_total:
  assumes "\<exists>cv. h c = Some cv \<and> \<not> (dbg \<and> isPruned_m cv)"
    and "\<forall>a \<in> set ys. \<exists>av. h a = Some av \<and> \<not> (dbg \<and> isPruned_m av)"
  shows "\<exists>found. findChild dbg h c ys = Inr found"
  using assms(2)
proof (induction ys)
  case Nil
  show ?case by simp
next
  case (Cons a ys)
  from assms(1) obtain cv where cv: "h c = Some cv" "\<not> (dbg \<and> isPruned_m cv)" by blast
  from Cons.prems obtain av where av: "h a = Some av" "\<not> (dbg \<and> isPruned_m av)" by auto
  from Cons obtain found where f: "findChild dbg h c ys = Inr found" by auto
  from cv av have g: "getId dbg av = Inr (vId_m av)" "getId dbg cv = Inr (vId_m cv)"
    by (auto simp: getId_def ASSERT_NOT_PRUNED_def assertNotPruned_def)
  show ?case
  proof (cases "vId_m av = vId_m cv")
    case True
    with cv av g show ?thesis by simp
  next
    case False
    with cv av g f show ?thesis by (cases found) simp_all
  qed
qed

text \<open>
  Claim C6. A vertex and a target that are in the store, the children of the vertex in the
  store as well, none of them pruned where \<^verbatim>\<open>BITSTAR_DEBUG\<close> is defined (the flag \<open>dbg\<close>); and,
  when one of the two calls cascades (the flags \<open>ua\<close> of \<^verbatim>\<open>addChild\<close> and \<open>ur\<close> of
  \<^verbatim>\<open>removeChild\<close>), the vertices below the target a tree \<open>t\<close> of distinct vertices that
  the vertex is not part of, the target root or connected to a parent outside \<open>t\<close>, and
  the recursion bound at least the height of \<open>t\<close>. Then \<^verbatim>\<open>addChild\<close> returns normally,
  \<^verbatim>\<open>removeChild\<close> with the same target returns normally in the store it leaves, and
  afterwards the child list of the vertex has the length it had before and the ids of its
  children are the same multiset as before.
\<close>

theorem addChild_removeChild_restores:
  fixes h :: "'c heap"
  assumes "h this = Some v" and "\<not> (dbg \<and> isPruned_m v)"
    and "h c = Some cv" and "\<not> (dbg \<and> isPruned_m cv)"
    and "\<forall>a \<in> set (childWPtrs_m v). \<exists>av. h a = Some av \<and> \<not> (dbg \<and> isPruned_m av)"
    and "ua \<or> ur \<longrightarrow>
           subtreeAt h t \<and> distinct (vaddrs t) \<and> vroot t = c \<and> ownOk dbg h cv \<and>
           (\<forall>q. parentSPtr_m cv = Some q \<longrightarrow> q \<notin> set (vaddrs t)) \<and> this \<notin> set (vaddrs t)"
    and "ua \<longrightarrow> vheight t \<le> n" and "ur \<longrightarrow> vheight t \<le> m"
  shows "\<exists>h1 h2 v2.
           addChild dbg n this c ua h = Some (Inr (), h1) \<and>
           removeChild dbg m this c ur h1 = Some (Inr (), h2) \<and>
           h2 this = Some v2 \<and>
           length (childWPtrs_m v2) = length (childWPtrs_m v) \<and>
           mset (map (\<lambda>a. map_option vId_m (h2 a)) (childWPtrs_m v2)) =
           mset (map (\<lambda>a. map_option vId_m (h a)) (childWPtrs_m v))"
proof -
  let ?xs = "childWPtrs_m v"
  let ?v0 = "v\<lparr>childWPtrs_m := ?xs @ [c]\<rparr>"
  let ?h0 = "h(this \<mapsto> ?v0)"
  have asrt: "ASSERT_NOT_PRUNED dbg v = Inr ()"
    using assms(2) by (auto simp: ASSERT_NOT_PRUNED_def assertNotPruned_def)
  \<comment> \<open>the first call returns\<close>
  have "\<exists>h1. addChild dbg n this c ua h = Some (Inr (), h1)"
  proof (cases ua)
    case True
    with assms(6,7) have tr: "subtreeAt h t" "distinct (vaddrs t)" "vroot t = c"
        "ownOk dbg h cv" "\<And>q. parentSPtr_m cv = Some q \<Longrightarrow> q \<notin> set (vaddrs t)"
        "this \<notin> set (vaddrs t)" "vheight t \<le> n" by blast+
    from assms(3) tr(3) have x: "h (vroot t) = Some cv" by simp
    from addChild_cascade[where h = h, OF tr(1,2) x tr(7,4,5) assms(1,2) tr(6)] tr(3) True
    show ?thesis by auto
  next
    case False
    with assms(1) asrt show ?thesis by (simp add: addChild_def)
  qed
  then obtain h1 where add: "addChild dbg n this c ua h = Some (Inr (), h1)" by blast
  from add assms(1) have s1: "sameShape ?h0 h1"
    by (auto elim!: addChild_Inr)
  \<comment> \<open>the store between the calls\<close>
  from sameShape_Some[OF s1, of this ?v0] obtain v1 where v1: "h1 this = Some v1"
      "sameFields ?v0 v1" by auto
  from sameFields_fields(1,2)[OF v1(2)] assms(2)
  have v1f: "childWPtrs_m v1 = ?xs @ [c]" "\<not> (dbg \<and> isPruned_m v1)" by simp_all
  have live0: "\<exists>av. ?h0 a = Some av \<and> \<not> (dbg \<and> isPruned_m av)"
    if "\<exists>av. h a = Some av \<and> \<not> (dbg \<and> isPruned_m av)" for a
    using assms(1) _ that by (rule live_upd) simp
  have live1: "\<exists>av. h1 a = Some av \<and> \<not> (dbg \<and> isPruned_m av)"
    if "\<exists>av. h a = Some av \<and> \<not> (dbg \<and> isPruned_m av)" for a
    using s1 live0[OF that] by (rule live_sameShape)
  have lc: "\<exists>cv'. h1 c = Some cv' \<and> \<not> (dbg \<and> isPruned_m cv')"
    using assms(3,4) by (intro live1) blast
  have lx: "\<forall>a \<in> set (childWPtrs_m v1). \<exists>av. h1 a = Some av \<and> \<not> (dbg \<and> isPruned_m av)"
  proof
    fix a assume "a \<in> set (childWPtrs_m v1)"
    with v1f(1) have "a \<in> set ?xs \<or> a = c" by auto
    then have "\<exists>av. h a = Some av \<and> \<not> (dbg \<and> isPruned_m av)"
      using assms(3,4,5) by blast
    then show "\<exists>av. h1 a = Some av \<and> \<not> (dbg \<and> isPruned_m av)" by (rule live1)
  qed
  from findChild_total[OF lc lx] obtain found
    where f: "findChild dbg h1 c (childWPtrs_m v1) = Inr found" by blast
  from f v1f(1) findChild_append_self[of dbg h1 c ?xs] obtain i where i: "found = Some i"
    by (cases found) auto
  have asrt1: "ASSERT_NOT_PRUNED dbg v1 = Inr ()"
    using v1f(2) by (auto simp: ASSERT_NOT_PRUNED_def assertNotPruned_def)
  \<comment> \<open>the second call returns\<close>
  have "\<exists>h2. removeChild dbg m this c ur h1 = Some (Inr (), h2)"
  proof (cases ur)
    case True
    with assms(6,8) have tr: "subtreeAt h t" "distinct (vaddrs t)" "vroot t = c"
        "ownOk dbg h cv" "\<And>q. parentSPtr_m cv = Some q \<Longrightarrow> q \<notin> set (vaddrs t)"
        "this \<notin> set (vaddrs t)" "vheight t \<le> m" by blast+
    from tr(3,6) vroot_in_vaddrs[of t] have ct: "c \<noteq> this" by auto
    have "subtreeAt ?h0 t" using tr(1,6) by (simp add: subtreeAt_upd_other)
    with subtreeAt_sameShape[OF s1, of t] have st1: "subtreeAt h1 t" by simp
    from ct assms(3) have "?h0 c = Some cv" by simp
    from sameShape_Some[OF s1 this] obtain cv1 where cv1: "h1 c = Some cv1"
        "sameFields cv cv1" by blast
    have "ownOk dbg ?h0 cv" by (rule ownOk_upd_children[OF assms(1) tr(4)])
    with s1 cv1(2) have ok1: "ownOk dbg h1 cv1" by (rule ownOk_sameShape)
    from sameFields_fields(3)[OF cv1(2)] tr(5)
    have p1: "\<And>q. parentSPtr_m cv1 = Some q \<Longrightarrow> q \<notin> set (vaddrs t)" by simp
    from cv1(1) tr(3) have x1: "h1 (vroot t) = Some cv1" by simp
    from f i tr(3) have f1: "findChild dbg h1 (vroot t) (childWPtrs_m v1) = Inr (Some i)"
      by simp
    have nf: "\<not> (dbg \<and> Some i = None)" by simp
    from removeChild_cascade[where h = h1, OF st1 tr(2) x1 tr(7) ok1 p1 v1(1) v1f(2) tr(6) f1 nf]
      tr(3) True
    show ?thesis by auto
  next
    case False
    with v1(1) asrt1 f i show ?thesis by (simp add: removeChild_def)
  qed
  then obtain h2 where rem: "removeChild dbg m this c ur h1 = Some (Inr (), h2)" by blast
  from addChild_removeChild_lists[OF add rem] assms(1) add rem show ?thesis by auto
qed

text \<open>
  The target is already a child: the scan finds its first occurrence, which the entry
  just added replaces.
\<close>

theorem addChild_removeChild_restores_witness:
  "(\<exists>h1 h2 v2.
      addChild True (Suc 0) 0 1 True
        [0 \<mapsto> exVertex 0 True False None \<infinity> 0 0 [1, 2],
         1 \<mapsto> exVertex 1 False False (Some 0) 3 3 1 [],
         2 \<mapsto> exVertex 2 False False (Some 0) 4 4 1 []] = Some (Inr (), h1) \<and>
      removeChild True (Suc 0) 0 1 True h1 = Some (Inr (), h2) \<and>
      h2 0 = Some v2 \<and>
      length (childWPtrs_m v2) = length [1::addr, 2] \<and>
      mset (map (\<lambda>a. map_option vId_m (h2 a)) (childWPtrs_m v2)) = {#Some 1, Some 2#}) \<and>
   addChild True (Suc 0) 0 1 True
     [0 \<mapsto> exVertex 0 True False None \<infinity> 0 0 [1, 2],
      1 \<mapsto> exVertex 1 False False (Some 0) 3 3 1 [],
      2 \<mapsto> exVertex 2 False False (Some 0) 4 4 1 []] =
   Some (Inr (),
     [0 \<mapsto> exVertex 0 True False None \<infinity> 0 0 [1, 2, 1],
      1 \<mapsto> exVertex 1 False False (Some 0) 3 3 1 [],
      2 \<mapsto> exVertex 2 False False (Some 0) 4 4 1 []]) \<and>
   removeChild True (Suc 0) 0 1 True
     [0 \<mapsto> exVertex 0 True False None \<infinity> 0 0 [1, 2, 1],
      1 \<mapsto> exVertex 1 False False (Some 0) 3 3 1 [],
      2 \<mapsto> exVertex 2 False False (Some 0) 4 4 1 []] =
   Some (Inr (),
     [0 \<mapsto> exVertex 0 True False None \<infinity> 0 0 [1, 2],
      1 \<mapsto> exVertex 1 False False (Some 0) 3 3 1 [],
      2 \<mapsto> exVertex 2 False False (Some 0) 4 4 1 []])"
proof -
  let ?r = "exVertex 0 True False None \<infinity> 0 0 [1, 2]"
  let ?a = "exVertex 1 False False (Some 0) 3 3 1 []"
  let ?h = "[(0::addr) \<mapsto> ?r, 1 \<mapsto> ?a, 2 \<mapsto> exVertex 2 False False (Some 0) 4 4 1 []]"
  let ?h1 = "[(0::addr) \<mapsto> exVertex 0 True False None \<infinity> 0 0 [1, 2, 1],
      1 \<mapsto> ?a, 2 \<mapsto> exVertex 2 False False (Some 0) 4 4 1 []]"
  let ?t = "VNode 1 []"
  have p1: "?h 0 = Some ?r" "\<not> (True \<and> isPruned_m ?r)"
    by (simp_all add: exVertex_def)
  have p2: "?h 1 = Some ?a" "\<not> (True \<and> isPruned_m ?a)"
    by (simp_all add: exVertex_def)
  have p3: "\<forall>a \<in> set (childWPtrs_m ?r). \<exists>av. ?h a = Some av \<and> \<not> (True \<and> isPruned_m av)"
    by (simp add: exVertex_def)
  have p4: "True \<or> True \<longrightarrow>
           subtreeAt ?h ?t \<and> distinct (vaddrs ?t) \<and> vroot ?t = 1 \<and> ownOk True ?h ?a \<and>
           (\<forall>q. parentSPtr_m ?a = Some q \<longrightarrow> q \<notin> set (vaddrs ?t)) \<and> 0 \<notin> set (vaddrs ?t)"
    by (simp add: exVertex_def ownOk_def)
  have p5: "True \<longrightarrow> vheight ?t \<le> Suc 0" by simp
  have a: "addChild True (Suc 0) 0 1 True ?h = Some (Inr (), ?h1)"
    by (simp add: addChild_def ASSERT_NOT_PRUNED_def assertNotPruned_def exVertex_def
        updateCostAndDepth_Suc updateOwn_def natCosts_def fun_upd_twist)
  have r: "removeChild True (Suc 0) 0 1 True ?h1 = Some (Inr (), ?h)"
    by (simp add: removeChild_def ASSERT_NOT_PRUNED_def assertNotPruned_def exVertex_def
        getId_def swapAndPop_def updateCostAndDepth_Suc updateOwn_def natCosts_def fun_upd_twist)
  have c: "childWPtrs_m ?r = [1, 2]"
    "map (\<lambda>a. map_option vId_m (?h a)) [1, 2] = [Some 1, Some 2]"
    by (simp_all add: exVertex_def)
  from addChild_removeChild_restores[where h = ?h and v = ?r and cv = ?a and t = ?t
      and dbg = True and ua = True and ur = True and n = "Suc 0" and m = "Suc 0",
      OF p1 p2 p3 p4 p5 p5]
  have "\<exists>h1 h2 v2.
      addChild True (Suc 0) 0 1 True ?h = Some (Inr (), h1) \<and>
      removeChild True (Suc 0) 0 1 True h1 = Some (Inr (), h2) \<and>
      h2 0 = Some v2 \<and>
      length (childWPtrs_m v2) = length [1::addr, 2] \<and>
      mset (map (\<lambda>a. map_option vId_m (h2 a)) (childWPtrs_m v2)) = {#Some 1, Some 2#}"
    unfolding c by simp
  with a r show ?thesis by blast
qed

section \<open>Removing a parent\<close>

text \<open>
  Claim C3, as stated, fails where \<^verbatim>\<open>BITSTAR_DEBUG\<close> is defined: \<^verbatim>\<open>removeParent\<close> with
  cascade on a vertex with a child throws once the vertex itself is reset, and the child
  keeps its cost 7.
\<close>

theorem removeParent_debug_counterexample:
  "removeParent True (Suc (Suc 0)) 1 True
     [0 \<mapsto> exVertex 0 True False None \<infinity> 0 0 [1],
      1 \<mapsto> exVertex 1 False False (Some 0) 3 3 1 [2],
      2 \<mapsto> exVertex 2 False False (Some 1) 4 7 2 []] =
   Some (Inl CascadeFromDisconnected,
     [0 \<mapsto> exVertex 0 True False None \<infinity> 0 0 [1],
      1 \<mapsto> exVertex 1 False False None 3 \<infinity> 0 [2],
      2 \<mapsto> exVertex 2 False False (Some 1) 4 7 2 []]) \<and>
   cost_m (exVertex 2 False False (Some 1) 4 7 2 []) \<noteq>
     infiniteCost (costHelpPtr_m (exVertex 2 False False (Some 1) 4 7 2 []))"
  by (simp add: removeParent_def ASSERT_NOT_PRUNED_def assertNotPruned_def
      hasParent_def isRoot_def exVertex_def updateCostAndDepth_Suc updateOwn_def natCosts_def
      fun_upd_twist)

text \<open>
  Claim C3, amended. For a vertex that is not root, not pruned and has a parent, with a tree
  \<open>t\<close> of distinct vertices below it: \<^verbatim>\<open>removeParent\<close> clears the parent and sets the cost
  to the infinite cost and the depth to 0. With cascade, where \<^verbatim>\<open>BITSTAR_DEBUG\<close> is not
  defined or the vertex has no children, the call returns normally and, when the vertices
  of \<open>t\<close> share a cost helper whose infinite cost absorbs combination, every vertex of \<open>t\<close>
  has the infinite cost afterwards. With cascade, where \<^verbatim>\<open>BITSTAR_DEBUG\<close> is defined and the
  vertex has children, the call throws after the vertex itself is reset and no descendant
  is touched. Without cascade only the vertex itself is reset.
\<close>

theorem removeParent_effect:
  fixes h :: "'c heap"
  assumes "subtreeAt h t" and "distinct (vaddrs t)" and "h (vroot t) = Some v"
    and "vheight t \<le> n" and "\<not> isRoot_m v" and "parentSPtr_m v \<noteq> None"
  shows
    "(\<not> (dbg \<and> vsubs t \<noteq> []) \<longrightarrow>
        (\<exists>h'. removeParent dbg n (vroot t) True h = Some (Inr (), h') \<and>
           h' (vroot t) = Some (v\<lparr>parentSPtr_m := None,
              cost_m := infiniteCost (costHelpPtr_m v), depth_m := 0\<rparr>) \<and>
           ((\<forall>w \<in> set (vaddrs t). \<forall>wv. h w = Some wv \<longrightarrow> costHelpPtr_m wv = ch) \<and>
            (\<forall>e. combineCosts ch (infiniteCost ch) e = infiniteCost ch) \<longrightarrow>
              (\<forall>w \<in> set (vaddrs t). \<exists>wv. h' w = Some wv \<and> cost_m wv = infiniteCost ch)))) \<and>
     (dbg \<and> vsubs t \<noteq> [] \<longrightarrow>
        removeParent dbg n (vroot t) True h =
          Some (Inl CascadeFromDisconnected,
                h(vroot t \<mapsto> v\<lparr>parentSPtr_m := None,
                   cost_m := infiniteCost (costHelpPtr_m v), depth_m := 0\<rparr>))) \<and>
     removeParent dbg n (vroot t) False h =
       Some (Inr (), h(vroot t \<mapsto> v\<lparr>parentSPtr_m := None,
                   cost_m := infiniteCost (costHelpPtr_m v), depth_m := 0\<rparr>))"
proof (intro conjI impI)
  let ?x = "vroot t"
  let ?v0 = "v\<lparr>parentSPtr_m := None\<rparr>"
  let ?h0 = "h(?x \<mapsto> ?v0)"
  from subtreeAt_root[OF assms(1,3)]
  have np: "\<not> isPruned_m v" and ch: "childWPtrs_m v = map vroot (vsubs t)" by simp_all
  from assms(4) obtain m where n: "n = Suc m" by (cases t; cases n) auto
  have op: "\<And>c k. removeParent dbg k ?x c h = updateCostAndDepth dbg k ?x c ?h0"
    using assms(3,5,6) np
    by (simp add: removeParent_def ASSERT_NOT_PRUNED_def assertNotPruned_def hasParent_def
        isRoot_def)
  have own: "\<And>c. updateOwn dbg c ?x ?h0 =
         (if dbg \<and> vsubs t \<noteq> [] \<and> c then Inl CascadeFromDisconnected else Inr (childWPtrs_m v),
          h(?x \<mapsto> v\<lparr>parentSPtr_m := None, cost_m := infiniteCost (costHelpPtr_m v),
                     depth_m := 0\<rparr>))"
    using assms(5) np ch by (simp add: updateOwn_def)
  show "removeParent dbg n ?x False h =
       Some (Inr (), h(?x \<mapsto> v\<lparr>parentSPtr_m := None,
                   cost_m := infiniteCost (costHelpPtr_m v), depth_m := 0\<rparr>))"
    by (simp add: op n updateCostAndDepth_Suc own)
  have tr: "removeParent dbg n ?x True h =
          (if dbg \<and> vsubs t \<noteq> []
           then Some (Inl CascadeFromDisconnected,
                h(?x \<mapsto> v\<lparr>parentSPtr_m := None,
                   cost_m := infiniteCost (costHelpPtr_m v), depth_m := 0\<rparr>))
           else updateChildren dbg m (childWPtrs_m v)
                (h(?x \<mapsto> v\<lparr>parentSPtr_m := None,
                   cost_m := infiniteCost (costHelpPtr_m v), depth_m := 0\<rparr>)))"
    by (simp add: op n updateCostAndDepth_Suc own)
  {
    assume "dbg \<and> vsubs t \<noteq> []"
    with tr show "removeParent dbg n ?x True h =
          Some (Inl CascadeFromDisconnected,
                h(?x \<mapsto> v\<lparr>parentSPtr_m := None,
                   cost_m := infiniteCost (costHelpPtr_m v), depth_m := 0\<rparr>))"
      by simp
  }
  {
    assume nd: "\<not> (dbg \<and> vsubs t \<noteq> [])"
    from removeParent_cascade[where h = h, OF assms(1,2,3,4,5,6) nd]
    obtain h' where h': "removeParent dbg n ?x True h = Some (Inr (), h')"
        "\<forall>w \<in> set (vaddrs t). costInv h' w" "sameShape ?h0 h'"
        "h' ?x = Some (v\<lparr>parentSPtr_m := None,
              cost_m := infiniteCost (costHelpPtr_m v), depth_m := 0\<rparr>)" by blast
    have inf: "\<forall>w \<in> set (vaddrs t). \<exists>wv. h' w = Some wv \<and> cost_m wv = infiniteCost ch"
      if hc: "\<forall>w \<in> set (vaddrs t). \<forall>wv. h w = Some wv \<longrightarrow> costHelpPtr_m wv = ch"
        and ab: "\<forall>e. combineCosts ch (infiniteCost ch) e = infiniteCost ch"
    proof -
      have st0: "subtreeAt ?h0 t" by (rule subtreeAt_upd_root[OF assms(1,2,3)]) simp_all
      with subtreeAt_sameShape[OF h'(3), of t] have st': "subtreeAt h' t" by simp
      from hc vroot_in_vaddrs[of t] assms(3) have vch: "costHelpPtr_m v = ch" by blast
      have hc': "\<forall>w \<in> set (vaddrs t). \<forall>wv. h' w = Some wv \<longrightarrow> costHelpPtr_m wv = ch"
      proof (intro ballI allI impI)
        fix w wv assume w: "w \<in> set (vaddrs t)" and wv: "h' w = Some wv"
        from sameShape_Some[OF sameShape_sym[OF h'(3)] wv] obtain wv0
          where wv0: "?h0 w = Some wv0" "sameFields wv wv0" by blast
        from sameFields_fields(6)[OF wv0(2)] have e: "costHelpPtr_m wv = costHelpPtr_m wv0"
          by simp
        show "costHelpPtr_m wv = ch"
        proof (cases "w = ?x")
          case True
          with wv0(1) e vch show ?thesis by auto
        next
          case False
          with wv0(1) have "h w = Some wv0" by simp
          with hc w e show ?thesis by simp
        qed
      qed
      have ci: "cost_m (v\<lparr>parentSPtr_m := None,
              cost_m := infiniteCost (costHelpPtr_m v), depth_m := 0\<rparr>) = infiniteCost ch"
        using vch by simp
      from ab have ab': "\<And>e. combineCosts ch (infiniteCost ch) e = infiniteCost ch" by simp
      show ?thesis by (rule cascade_infinite[OF ab' st' h'(2) h'(4) ci hc'])
    qed
    from h'(1) h'(4) inf
    show "\<exists>h'. removeParent dbg n ?x True h = Some (Inr (), h') \<and>
           h' ?x = Some (v\<lparr>parentSPtr_m := None,
              cost_m := infiniteCost (costHelpPtr_m v), depth_m := 0\<rparr>) \<and>
           ((\<forall>w \<in> set (vaddrs t). \<forall>wv. h w = Some wv \<longrightarrow> costHelpPtr_m wv = ch) \<and>
            (\<forall>e. combineCosts ch (infiniteCost ch) e = infiniteCost ch) \<longrightarrow>
              (\<forall>w \<in> set (vaddrs t). \<exists>wv. h' w = Some wv \<and> cost_m wv = infiniteCost ch))"
      by blast
  }
qed

text \<open>The same store in both builds, and without cascade.\<close>

theorem removeParent_effect_witness:
  "(\<exists>h'. removeParent False 2 1 True
            [0 \<mapsto> exVertex 0 True False None \<infinity> 0 0 [1],
             1 \<mapsto> exVertex 1 False False (Some 0) 3 3 1 [2],
             2 \<mapsto> exVertex 2 False False (Some 1) 4 7 2 []] = Some (Inr (), h') \<and>
         h' 1 = Some (exVertex 1 False False None 3 \<infinity> 0 [2]) \<and>
         (\<forall>w \<in> set (vaddrs (VNode 1 [VNode 2 []])).
            \<exists>wv. h' w = Some wv \<and> cost_m wv = infiniteCost natCosts)) \<and>
   removeParent True 2 1 True
     [0 \<mapsto> exVertex 0 True False None \<infinity> 0 0 [1],
      1 \<mapsto> exVertex 1 False False (Some 0) 3 3 1 [2],
      2 \<mapsto> exVertex 2 False False (Some 1) 4 7 2 []] =
   Some (Inl CascadeFromDisconnected,
     [0 \<mapsto> exVertex 0 True False None \<infinity> 0 0 [1],
      1 \<mapsto> exVertex 1 False False None 3 \<infinity> 0 [2],
      2 \<mapsto> exVertex 2 False False (Some 1) 4 7 2 []]) \<and>
   removeParent True 2 1 False
     [0 \<mapsto> exVertex 0 True False None \<infinity> 0 0 [1],
      1 \<mapsto> exVertex 1 False False (Some 0) 3 3 1 [2],
      2 \<mapsto> exVertex 2 False False (Some 1) 4 7 2 []] =
   Some (Inr (),
     [0 \<mapsto> exVertex 0 True False None \<infinity> 0 0 [1],
      1 \<mapsto> exVertex 1 False False None 3 \<infinity> 0 [2],
      2 \<mapsto> exVertex 2 False False (Some 1) 4 7 2 []])"
proof -
  let ?a = "exVertex 1 False False (Some 0) 3 3 1 [2]"
  let ?h = "[(0::addr) \<mapsto> exVertex 0 True False None \<infinity> 0 0 [1], 1 \<mapsto> ?a,
             2 \<mapsto> exVertex 2 False False (Some 1) 4 7 2 []]"
  let ?t = "VNode 1 [VNode 2 []]"
  have st: "subtreeAt ?h ?t" by (simp add: exVertex_def)
  have d: "distinct (vaddrs ?t)" by simp
  have x: "?h (vroot ?t) = Some ?a" by simp
  have ht: "vheight ?t \<le> 2" by simp
  have rp: "\<not> isRoot_m ?a" "parentSPtr_m ?a \<noteq> None" by (simp_all add: exVertex_def)
  have e: "?a\<lparr>parentSPtr_m := None, cost_m := infiniteCost (costHelpPtr_m ?a), depth_m := 0\<rparr> =
           exVertex 1 False False None 3 \<infinity> 0 [2]"
    by (simp add: exVertex_def natCosts_def)
  have hu: "?h(vroot ?t \<mapsto> exVertex 1 False False None 3 \<infinity> 0 [2]) =
     [0 \<mapsto> exVertex 0 True False None \<infinity> 0 0 [1],
      1 \<mapsto> exVertex 1 False False None 3 \<infinity> 0 [2],
      2 \<mapsto> exVertex 2 False False (Some 1) 4 7 2 []]"
    by (simp add: fun_upd_twist)
  have c: "\<forall>w \<in> set (vaddrs ?t). \<forall>wv. ?h w = Some wv \<longrightarrow> costHelpPtr_m wv = natCosts"
    "\<forall>e. combineCosts natCosts (infiniteCost natCosts) e = infiniteCost natCosts"
    by (simp_all add: exVertex_def natCosts_def)
  note i1 = removeParent_effect[where h = ?h and t = ?t and v = ?a and n = 2 and dbg = False
      and ch = natCosts, OF st d x ht rp, unfolded e]
  note i2 = removeParent_effect[where h = ?h and t = ?t and v = ?a and n = 2 and dbg = True
      and ch = natCosts, OF st d x ht rp, unfolded e hu]
  have w1: "\<exists>h'. removeParent False 2 1 True ?h = Some (Inr (), h') \<and>
         h' 1 = Some (exVertex 1 False False None 3 \<infinity> 0 [2]) \<and>
         (\<forall>w \<in> set (vaddrs ?t). \<exists>wv. h' w = Some wv \<and> cost_m wv = infiniteCost natCosts)"
    using i1 c by simp
  from i2 have w2: "removeParent True 2 1 True ?h =
     Some (Inl CascadeFromDisconnected,
     [0 \<mapsto> exVertex 0 True False None \<infinity> 0 0 [1],
      1 \<mapsto> exVertex 1 False False None 3 \<infinity> 0 [2],
      2 \<mapsto> exVertex 2 False False (Some 1) 4 7 2 []])"
    by simp
  from i2 have w3: "removeParent True 2 1 False ?h =
     Some (Inr (),
     [0 \<mapsto> exVertex 0 True False None \<infinity> 0 0 [1],
      1 \<mapsto> exVertex 1 False False None 3 \<infinity> 0 [2],
      2 \<mapsto> exVertex 2 False False (Some 1) 4 7 2 []])"
    by simp
  from w1 w2 w3 show ?thesis by blast
qed

end
